theory Spec2Isabelle
  imports Main "HOL-Library.Word" "HOL-Library.Sublist"
begin

section \<open>Data model of \<^verbatim>\<open>stringzilla/pybind11.cpp\<close>\<close>

text \<open>
  \<^verbatim>\<open>size_t\<close> and \<^verbatim>\<open>ssize_t\<close> are 64-bit words. A \<^verbatim>\<open>static_cast\<close> between them keeps
  the bits; a signed comparison reads the word with \<open>sint\<close>, an unsigned one with the
  order of words. A \<^verbatim>\<open>char const *\<close> is a 64-bit address, and the bytes behind the
  addresses are a function from addresses to bytes.
\<close>

type_synonym memory = "64 word \<Rightarrow> char"

record span_t =
  ptr :: "64 word"
  len :: "64 word"

text \<open>The value-initialised \<^verbatim>\<open>span_t {}\<close>: a null pointer and length zero.\<close>

definition span_nil :: span_t where
  "span_nil = \<lparr>ptr = 0, len = 0\<rparr>"

definition ssize_max_k :: "64 word" where
  "ssize_max_k = 0x7FFFFFFFFFFFFFFF"

definition size_max_k :: "64 word" where
  "size_max_k = 0xFFFFFFFFFFFFFFFF"

text \<open>
  \<open>Invalid_argument\<close> and \<open>Out_of_range\<close> are the two exceptions the file throws.
  \<open>Undefined_behaviour\<close> marks what C++ leaves undefined: \<^verbatim>\<open>operator[]\<close> of a
  \<^verbatim>\<open>std::vector\<close> past its size, and the negation of the least \<^verbatim>\<open>ssize_t\<close>.
\<close>

datatype error = Invalid_argument | Out_of_range | Undefined_behaviour

text \<open>
  \<^verbatim>\<open>index_span_t\<close>; its field \<^verbatim>\<open>length\<close> is written \<open>length'\<close>. The members
  \<^verbatim>\<open>parent_\<close>, \<^verbatim>\<open>whole_\<close> and \<^verbatim>\<open>parts_\<close> below are written without the underscore.
\<close>

record index_span_t =
  offset :: "64 word"
  length' :: "64 word"

text \<open>The bytes a span covers, read from memory.\<close>

definition bytes :: "memory \<Rightarrow> span_t \<Rightarrow> char list" where
  "bytes mem s = map (\<lambda>i. mem (ptr s + of_nat i)) [0..<unat (len s)]"

section \<open>The slice index resolver\<close>

text \<open>
  \<^verbatim>\<open>unsigned_slice\<close>: \<^verbatim>\<open>std::min\<close> on \<^verbatim>\<open>ssize_t\<close> against
  \<^verbatim>\<open>static_cast<ssize_t>(length)\<close>, then \<^verbatim>\<open>static_cast<size_t>(end - start)\<close>.
\<close>

definition unsigned_slice :: "64 word \<Rightarrow> 64 word \<Rightarrow> 64 word \<Rightarrow> error + index_span_t" where
  "unsigned_slice n start end =
     (if sint start < 0 \<or> sint end < 0 then Inl Invalid_argument
      else
        let start' = (if sint n < sint start then n else start);
            end' = (if sint n < sint end then n else end)
        in Inr \<lparr>offset = start', length' = end' - start'\<rparr>)"

definition unsigned_offset :: "64 word \<Rightarrow> 64 word \<Rightarrow> error + 64 word" where
  "unsigned_offset n idx =
     (if 0 \<le> sint idx then
        (if n < idx then Inl Out_of_range else Inr idx)
      else if sint idx = - (2 ^ 63) then Inl Undefined_behaviour
      else
        (if n < - idx then Inl Out_of_range else Inr (n + idx)))"

definition subspan :: "span_t \<Rightarrow> 64 word \<Rightarrow> 64 word \<Rightarrow> error + span_t" where
  "subspan s start end =
     (case unsigned_slice (len s) start end of
        Inl e \<Rightarrow> Inl e
      | Inr index_span \<Rightarrow> Inr \<lparr>ptr = ptr s + offset index_span, len = length' index_span\<rparr>)"

section \<open>Views and collections\<close>

text \<open>
  The classes derived from \<^verbatim>\<open>py_span_t\<close>. Every object is immutable once built and
  is only ever held through a \<^verbatim>\<open>std::shared_ptr\<close> to a \<^verbatim>\<open>const\<close> object, so a shared pointer
  is modelled by the object it points to: \<^verbatim>\<open>parent_\<close> of a \<^verbatim>\<open>py_subspan_t\<close> is the
  object \<^verbatim>\<open>shared_from_this()\<close> returned when it was built.
\<close>

datatype py_span_t =
    Py_str span_t
  | Py_file span_t
  | Py_subspan py_span_t span_t

fun span :: "py_span_t \<Rightarrow> span_t" where
  "span (Py_str s) = s"
| "span (Py_file s) = s"
| "span (Py_subspan p s) = s"

fun parent :: "py_span_t \<Rightarrow> py_span_t option" where
  "parent (Py_subspan p s) = Some p"
| "parent (Py_str s) = None"
| "parent (Py_file s) = None"

definition size_span :: "py_span_t \<Rightarrow> 64 word" where
  "size_span this = len (span this)"

definition after_n :: "span_t \<Rightarrow> 64 word \<Rightarrow> span_t" where
  "after_n this off =
     (if off < len this then \<lparr>ptr = ptr this + off, len = len this - off\<rparr> else span_nil)"

record py_spans_t =
  whole :: py_span_t
  parts :: "span_t list"

definition size_spans :: "py_spans_t \<Rightarrow> 64 word" where
  "size_spans this = of_nat (length (parts this))"

text \<open>\<^verbatim>\<open>py_spans_t::at\<close>: \<^verbatim>\<open>parts_[...]\<close> does not check its index.\<close>

definition at :: "py_spans_t \<Rightarrow> 64 word \<Rightarrow> error + py_span_t" where
  "at this i =
     (case unsigned_offset (size_spans this) i of
        Inl e \<Rightarrow> Inl e
      | Inr j \<Rightarrow>
          if unat j < length (parts this) then Inr (Py_subspan (whole this) (parts this ! unat j))
          else Inl Undefined_behaviour)"

definition sub :: "py_span_t \<Rightarrow> 64 word \<Rightarrow> 64 word \<Rightarrow> error + py_span_t" where
  "sub this start end =
     (case unsigned_slice (size_span this) start end of
        Inl e \<Rightarrow> Inl e
      | Inr index_span \<Rightarrow>
          Inr (Py_subspan this
                 \<lparr>ptr = ptr (span this) + offset index_span, len = length' index_span\<rparr>))"

text \<open>
  The owner at the end of the chain of \<^verbatim>\<open>parent_\<close> pointers, and the length of
  that chain.
\<close>

fun root_owner :: "py_span_t \<Rightarrow> py_span_t" where
  "root_owner (Py_subspan p s) = root_owner p"
| "root_owner (Py_str s) = Py_str s"
| "root_owner (Py_file s) = Py_file s"

fun chain_depth :: "py_span_t \<Rightarrow> nat" where
  "chain_depth (Py_subspan p s) = Suc (chain_depth p)"
| "chain_depth (Py_str s) = 0"
| "chain_depth (Py_file s) = 0"

text \<open>
  The View invariant of a span against an owner's span: the span starts
  \<open>ptr s - ptr owner\<close> bytes into the owner, and start offset plus length stays within
  the owner's length.
\<close>

definition within :: "span_t \<Rightarrow> span_t \<Rightarrow> bool" where
  "within s owner = (unat (ptr s - ptr owner) + unat (len s) \<le> unat (len owner))"

section \<open>The search kernels\<close>

text \<open>
  Modelled from the spec: \<^verbatim>\<open>strzl_naive_find_char\<close> of \<^verbatim>\<open>stringzilla.h\<close>, which is not
  among the sources. Section 4.3 (\<^verbatim>\<open>find_byte\<close>): the offset of the first occurrence of
  the byte, and the length of the haystack as the sentinel for "not found".
\<close>

fun strzl_naive_find_char :: "char list \<Rightarrow> char \<Rightarrow> nat" where
  "strzl_naive_find_char [] n = 0"
| "strzl_naive_find_char (x # xs) n = (if x = n then 0 else Suc (strzl_naive_find_char xs n))"

text \<open>
  Modelled from the spec: \<^verbatim>\<open>strzl_naive_find_substr\<close> of \<^verbatim>\<open>stringzilla.h\<close> (and its AVX2
  and NEON variants, which section 4.3 declares interchangeable), not among the sources.
  Section 4.3 (\<^verbatim>\<open>find_sequence\<close>): the offset of the first occurrence of the pattern,
  and the length of the haystack as the sentinel for "not found".
\<close>

fun strzl_naive_find_substr :: "char list \<Rightarrow> char list \<Rightarrow> nat" where
  "strzl_naive_find_substr [] n = 0"
| "strzl_naive_find_substr (x # xs) n =
     (if prefix n (x # xs) then 0 else Suc (strzl_naive_find_substr xs n))"

text \<open>
  Modelled from the spec: \<^verbatim>\<open>strzl_naive_count_char\<close> of \<^verbatim>\<open>stringzilla.h\<close> (and its AVX2
  and NEON variants), not among the sources. Section 4.3 (\<^verbatim>\<open>count_byte\<close>): the number
  of occurrences of the byte.
\<close>

fun strzl_naive_count_char :: "char list \<Rightarrow> char \<Rightarrow> nat" where
  "strzl_naive_count_char [] n = 0"
| "strzl_naive_count_char (x # xs) n =
     (if x = n then Suc (strzl_naive_count_char xs n) else strzl_naive_count_char xs n)"

text \<open>
  Modelled from the spec: \<^verbatim>\<open>strzl_naive_count_substr\<close> of \<^verbatim>\<open>stringzilla.h\<close>, not among
  the sources. Section 4.3 (\<^verbatim>\<open>count_sequence\<close>): without overlap the occurrences are
  counted by skipping past each match; with overlap every start position counts.
\<close>

function strzl_naive_count_substr :: "char list \<Rightarrow> char list \<Rightarrow> bool \<Rightarrow> nat" where
  "strzl_naive_count_substr h n overlap =
     (if n = [] \<or> h = [] then 0
      else if prefix n h
        then Suc (strzl_naive_count_substr (drop (if overlap then 1 else length n) h) n overlap)
      else strzl_naive_count_substr (tl h) n overlap)"
  by pat_completeness auto
termination
  by (relation "measure (\<lambda>(h, n, overlap). length h)") auto

declare strzl_naive_count_substr.simps [simp del]

text \<open>
  The four wrappers of the file. The haystack is a span in memory; a needle that is a
  \<^verbatim>\<open>std::string_view\<close> is passed by its bytes.
\<close>

definition count_substr_char :: "memory \<Rightarrow> span_t \<Rightarrow> char \<Rightarrow> 64 word" where
  "count_substr_char mem h_span n = of_nat (strzl_naive_count_char (bytes mem h_span) n)"

definition count_substr :: "memory \<Rightarrow> span_t \<Rightarrow> char list \<Rightarrow> bool \<Rightarrow> 64 word" where
  "count_substr mem h_span n_span overlap =
     of_nat (strzl_naive_count_substr (bytes mem h_span) n_span overlap)"

definition find_substr_char :: "memory \<Rightarrow> span_t \<Rightarrow> char \<Rightarrow> 64 word" where
  "find_substr_char mem h_span n = of_nat (strzl_naive_find_char (bytes mem h_span) n)"

definition find_substr :: "memory \<Rightarrow> span_t \<Rightarrow> char list \<Rightarrow> 64 word" where
  "find_substr mem h_span n_span = of_nat (strzl_naive_find_substr (bytes mem h_span) n_span)"

section \<open>Searching a view\<close>

definition contains :: "memory \<Rightarrow> py_span_t \<Rightarrow> char list \<Rightarrow> 64 word \<Rightarrow> 64 word \<Rightarrow> error + bool" where
  "contains mem this needle start end =
     (if length needle = 0 then Inr True
      else
        case subspan (span this) start end of
          Inl e \<Rightarrow> Inl e
        | Inr part \<Rightarrow>
            let off = (if length needle = 1 then find_substr_char mem part (hd needle)
                       else find_substr mem part needle)
            in Inr (off \<noteq> len part))"

text \<open>
  \<^verbatim>\<open>find\<close>: the conditional has the type \<^verbatim>\<open>size_t\<close>, so \<open>-1\<close> is the word of all ones,
  which the \<^verbatim>\<open>ssize_t\<close> result reads as \<open>-1\<close>.
\<close>

definition find :: "memory \<Rightarrow> py_span_t \<Rightarrow> char list \<Rightarrow> 64 word \<Rightarrow> 64 word \<Rightarrow> error + 64 word" where
  "find mem this needle start end =
     (if length needle = 0 then Inr 0
      else
        case subspan (span this) start end of
          Inl e \<Rightarrow> Inl e
        | Inr part \<Rightarrow>
            let off = (if length needle = 1 then find_substr_char mem part (hd needle)
                       else find_substr mem part needle)
            in Inr (if off \<noteq> len part then off else - 1))"

definition count ::
  "memory \<Rightarrow> py_span_t \<Rightarrow> char list \<Rightarrow> 64 word \<Rightarrow> 64 word \<Rightarrow> bool \<Rightarrow> error + 64 word" where
  "count mem this needle start end allowoverlap =
     (if length needle = 0 then Inr 0
      else
        case subspan (span this) start end of
          Inl e \<Rightarrow> Inl e
        | Inr part \<Rightarrow>
            Inr (if length needle = 1 then count_substr_char mem part (hd needle)
                 else count_substr mem part needle allowoverlap))"

section \<open>Splitting a view\<close>

text \<open>
  The loop of \<^verbatim>\<open>splitlines\<close>, from the values of \<open>i\<close> and \<open>last_start\<close> on. The
  vector \<open>ps\<close> keeps its size; \<^verbatim>\<open>parts[i]\<close> does not check its index.
\<close>

function splitlines_loop ::
  "memory \<Rightarrow> span_t \<Rightarrow> bool \<Rightarrow> char \<Rightarrow> span_t list \<Rightarrow> 64 word \<Rightarrow> 64 word
     \<Rightarrow> error + (span_t list \<times> 64 word)" where
  "splitlines_loop mem this keeplinebreaks separator ps i last_start =
     (if i + 1 < of_nat (length ps) then
        (if unat i < length ps then
           let remaining = after_n this last_start;
               offset_in_remaining = find_substr_char mem remaining separator
           in splitlines_loop mem this keeplinebreaks separator
                (ps[unat i := \<lparr>ptr = ptr this + last_start,
                                len = offset_in_remaining + of_bool keeplinebreaks\<rparr>])
                (i + 1) (last_start + (offset_in_remaining + 1))
         else Inl Undefined_behaviour)
      else Inr (ps, last_start))"
  by pat_completeness auto
termination
proof (relation "measure (\<lambda>(mem, this, keeplinebreaks, separator, ps, i, last_start).
                     unat ((of_nat (length ps) :: 64 word) - (i + 1)))", goal_cases)
  case 1
  show ?case by simp
next
  case (2 mem this keeplinebreaks separator ps i last_start x xa)
  define d where "d = (of_nat (length ps) :: 64 word) - (i + 1)"
  from 2 have "i + 1 < of_nat (length ps)" by simp
  then have "d \<noteq> 0" by (auto simp: d_def)
  then have less: "unat (d - 1) < unat d"
    by (simp add: unat_minus_one unat_gt_0)
  have e: "(of_nat (length ps) :: 64 word) - (i + 1 + 1) = d - 1"
    by (simp add: d_def)
  have "unat ((of_nat (length ps) :: 64 word) - (i + 1 + 1)) < unat d"
    unfolding e by (rule less)
  then show ?case by (simp add: d_def)
qed

declare splitlines_loop.simps [simp del]

text \<open>
  \<^verbatim>\<open>splitlines\<close>: the vector is built with \<open>min(count_separators + 1, maxsplit)\<close>
  value-initialised slots; the tail is assigned to the slot \<open>count_separators\<close>, and
  \<^verbatim>\<open>parts[count_separators]\<close> does not check its index. \<^verbatim>\<open>shared_from_this()\<close> is the
  object the method was called on.
\<close>

definition splitlines :: "memory \<Rightarrow> py_span_t \<Rightarrow> bool \<Rightarrow> char \<Rightarrow> 64 word \<Rightarrow> error + py_spans_t" where
  "splitlines mem this keeplinebreaks separator maxsplit =
     (let count_separators = count_substr_char mem (span this) separator;
          ps = replicate (unat (min (count_separators + 1) maxsplit)) span_nil
      in
        case splitlines_loop mem (span this) keeplinebreaks separator ps 0 0 of
          Inl e \<Rightarrow> Inl e
        | Inr (ps', last_start) \<Rightarrow>
            if unat count_separators < length ps'
            then Inr \<lparr>whole = this,
                      parts = ps'[unat count_separators := after_n (span this) last_start]\<rparr>
            else Inl Undefined_behaviour)"

text \<open>
  The loop of \<^verbatim>\<open>split\<close>, from the values of \<open>parts\<close>, \<open>last_start\<close> and
  \<open>will_continue\<close> on; \<^verbatim>\<open>emplace_back\<close> appends to the vector.
\<close>

function split_loop ::
  "memory \<Rightarrow> span_t \<Rightarrow> char list \<Rightarrow> 64 word \<Rightarrow> bool \<Rightarrow> span_t list \<Rightarrow> 64 word \<Rightarrow> bool
     \<Rightarrow> span_t list \<times> 64 word \<times> bool" where
  "split_loop mem this separator maxsplit keepseparator ps last_start will_continue =
     (if last_start < len this \<and> of_nat (length ps) + 1 < maxsplit then
        let remaining = after_n this last_start;
            offset_in_remaining = find_substr mem remaining separator;
            will_continue' = (offset_in_remaining \<noteq> len remaining);
            part_len = offset_in_remaining
              + of_nat (length separator) * of_bool keepseparator * of_bool will_continue'
        in split_loop mem this separator maxsplit keepseparator
             (ps @ [\<lparr>ptr = ptr remaining, len = part_len\<rparr>])
             (last_start + (offset_in_remaining + of_nat (length separator)))
             will_continue'
      else (ps, last_start, will_continue))"
  by pat_completeness auto
termination
proof (relation "measure (\<lambda>(mem, this, separator, maxsplit, keepseparator, ps, last_start,
                            will_continue). unat (maxsplit - (of_nat (length ps) + 1)))", goal_cases)
  case 1
  show ?case by simp
next
  case (2 mem this separator maxsplit keepseparator ps last_start will_continue x xa xb xc)
  define d where "d = maxsplit - ((of_nat (length ps) :: 64 word) + 1)"
  from 2 have "(of_nat (length ps) :: 64 word) + 1 < maxsplit" by simp
  then have "d \<noteq> 0" by (auto simp: d_def)
  then have less: "unat (d - 1) < unat d"
    by (simp add: unat_minus_one unat_gt_0)
  have e: "maxsplit - ((of_nat (length ps) :: 64 word) + 1 + 1) = d - 1"
    by (simp add: d_def)
  have "unat (maxsplit - ((of_nat (length ps) :: 64 word) + 1 + 1)) < unat d"
    unfolding e by (rule less)
  then show ?case by (simp add: d_def)
qed

declare split_loop.simps [simp del]

text \<open>
  \<^verbatim>\<open>split\<close>: the delegation to \<^verbatim>\<open>splitlines\<close> is guarded by
  \<^verbatim>\<open>separator.size() == 1 && maxsplit == ssize_max_k\<close>; after the loop a last part is
  appended when \<open>will_continue\<close> still holds.
\<close>

definition split :: "memory \<Rightarrow> py_span_t \<Rightarrow> char list \<Rightarrow> 64 word \<Rightarrow> bool \<Rightarrow> error + py_spans_t" where
  "split mem this separator maxsplit keepseparator =
     (if length separator = 1 \<and> maxsplit = ssize_max_k
      then splitlines mem this keepseparator (hd separator) maxsplit
      else
        case split_loop mem (span this) separator maxsplit keepseparator [] 0 True of
          (ps, last_start, will_continue) \<Rightarrow>
            Inr \<lparr>whole = this,
                 parts = (if will_continue then ps @ [after_n (span this) last_start] else ps)\<rparr>)"

section \<open>Owners built from a string\<close>

text \<open>
  The constructor of \<^verbatim>\<open>py_str_t\<close> keeps a copy of the string and points \<open>ptr\<close> and
  \<open>len\<close> at it. \<open>store_bytes base xs mem\<close> is the memory once the copy \<open>xs\<close> lives
  at the address \<open>base\<close>; \<open>zero_memory\<close> is a memory of zero bytes to start from.
\<close>

definition store_bytes :: "64 word \<Rightarrow> char list \<Rightarrow> memory \<Rightarrow> memory" where
  "store_bytes base xs mem a =
     (if unat (a - base) < length xs then xs ! unat (a - base) else mem a)"

definition zero_memory :: memory where
  "zero_memory a = CHR 0x00"

definition py_str_t :: "64 word \<Rightarrow> char list \<Rightarrow> py_span_t" where
  "py_str_t base string = Py_str \<lparr>ptr = base, len = of_nat (length string)\<rparr>"

section \<open>The scan on byte lists\<close>

text \<open>
  Reference definitions that follow the words of the specification, for comparison with
  the code. \<open>join\<close> puts the separator back between consecutive parts.
\<close>

fun join :: "char list \<Rightarrow> char list list \<Rightarrow> char list" where
  "join sep [] = []"
| "join sep [p] = p"
| "join sep (p # q # ps) = p @ sep @ join sep (q # ps)"

text \<open>
  Section 4.4 of the specification, steps 1 to 3 of Split without a cap: from the position
  \<open>a\<close> of a buffer that holds \<open>xs\<close> at the address \<open>p\<close>, locate the next separator in
  the remaining suffix; a part spans from the cursor to the match, with the separator when
  it is kept; the cursor moves past the separator; the separator-less remainder is the
  last part, and a scan that stops exactly at the end of the text yields a final empty
  part.
\<close>

function scan_parts :: "64 word \<Rightarrow> char list \<Rightarrow> bool \<Rightarrow> char list \<Rightarrow> nat \<Rightarrow> span_t list" where
  "scan_parts p sep keep xs a =
     (if sep = [] then []
      else if a < length xs then
        (let off = strzl_naive_find_substr (drop a xs) sep in
         if off < length xs - a
         then \<lparr>ptr = p + of_nat a, len = of_nat (off + (if keep then length sep else 0))\<rparr>
                # scan_parts p sep keep xs (a + off + length sep)
         else [\<lparr>ptr = p + of_nat a, len = of_nat off\<rparr>])
      else [span_nil])"
  by pat_completeness auto
termination
  by (relation "measure (\<lambda>(p, sep, keep, xs, a). length xs - a)") (auto simp: neq_Nil_conv)

declare scan_parts.simps [simp del]

text \<open>
  The same scan, as the test whether it stops exactly at the end of the text: the last
  separator it locates is the last bytes of the text.
\<close>

function scan_ends_on_separator :: "char list \<Rightarrow> char list \<Rightarrow> nat \<Rightarrow> bool" where
  "scan_ends_on_separator sep xs a =
     (if sep = [] then False
      else if a < length xs then
        (let off = strzl_naive_find_substr (drop a xs) sep in
         if off < length xs - a
         then (if a + off + length sep = length xs then True
               else scan_ends_on_separator sep xs (a + off + length sep))
         else False)
      else False)"
  by pat_completeness auto
termination
  by (relation "measure (\<lambda>(sep, xs, a). length xs - a)") (auto simp: neq_Nil_conv)

declare scan_ends_on_separator.simps [simp del]

section \<open>Signed and unsigned readings of a word\<close>

lemma sint_nonneg_uint: "0 \<le> sint (w :: 64 word) \<Longrightarrow> sint w = uint w"
proof -
  assume a: "0 \<le> sint w"
  have "sint w < 2 ^ 63" using sint_lt [of w] by simp
  then have "sint w < 2 ^ 64" by simp
  then have "take_bit 64 (sint w) = sint w" using a by (simp add: take_bit_int_eq_self)
  then show ?thesis using uint_sint [of w] by simp
qed

lemma sint_neg_uint: "sint (w :: 64 word) < 0 \<Longrightarrow> sint w = uint w - 2 ^ 64"
proof -
  assume a: "sint w < 0"
  have b: "- (2 ^ 63) \<le> sint w" using sint_ge [of w] by simp
  have "take_bit 64 (sint w) = take_bit 64 (sint w + 2 ^ 64)"
    by (metis take_bit_int_def mod_add_self2)
  also have "\<dots> = sint w + 2 ^ 64" using a b by (simp add: take_bit_int_eq_self)
  finally show ?thesis using uint_sint [of w] by simp
qed

lemma sint_nonneg_iff: "0 \<le> sint (w :: 64 word) \<longleftrightarrow> uint w < 2 ^ 63"
proof
  assume "0 \<le> sint w"
  then have "uint w = sint w" by (simp add: sint_nonneg_uint)
  moreover have "sint w < 2 ^ 63" using sint_lt [of w] by simp
  ultimately show "uint w < 2 ^ 63" by simp
next
  assume a: "uint w < 2 ^ 63"
  show "0 \<le> sint w"
  proof (rule ccontr)
    assume "\<not> 0 \<le> sint w"
    then have n: "sint w < 0" by simp
    then have "sint w = uint w - 2 ^ 64" by (rule sint_neg_uint)
    moreover have "- (2 ^ 63) \<le> sint w" using sint_ge [of w] by simp
    ultimately show False using a by simp
  qed
qed

lemma uint_unat_less: "uint (w :: 64 word) < 2 ^ 63 \<longleftrightarrow> unat w < 2 ^ 63"
  unfolding uint_nat by (simp only: of_nat_less_numeral_power_cancel_iff)

lemma sint_nonneg_unat: "0 \<le> sint (w :: 64 word) \<longleftrightarrow> unat w < 2 ^ 63"
  by (simp only: sint_nonneg_iff uint_unat_less)

lemma sint_le_word_le: "0 \<le> sint a \<Longrightarrow> sint a \<le> sint b \<Longrightarrow> (a :: 64 word) \<le> b"
proof -
  assume a: "0 \<le> sint a" and b: "sint a \<le> sint b"
  then have "0 \<le> sint b" by simp
  then have "sint b = uint b" by (rule sint_nonneg_uint)
  moreover have "sint a = uint a" using a by (rule sint_nonneg_uint)
  ultimately show ?thesis using b by (simp add: word_le_def)
qed

lemma unat_of_nat64: "n < 2 ^ 64 \<Longrightarrow> unat (of_nat n :: 64 word) = n"
  by (simp add: unat_of_nat)

section \<open>The resolver on ordered bounds\<close>

lemma unsigned_slice_ordered:
  assumes "0 \<le> sint start" and "sint start \<le> sint end"
  shows "\<exists>r. unsigned_slice n start end = Inr r \<and>
              unat (offset r) + unat (length' r) \<le> unat n"
proof -
  let ?s = "if sint n < sint start then n else start"
  let ?e = "if sint n < sint end then n else end"
  have 1: "start \<le> end"
    using assms by (rule sint_le_word_le)
  have 2: "\<not> sint n < sint start \<Longrightarrow> start \<le> n"
    using assms(1) by (simp add: sint_le_word_le)
  have 3: "\<not> sint n < sint end \<Longrightarrow> end \<le> n"
    using assms by (simp add: sint_le_word_le)
  have se: "?s \<le> ?e"
    using 1 2 assms by simp
  have e: "?e \<le> n"
    using 3 by simp
  have "unat ?s + unat (?e - ?s) = unat ?e"
    using se by (simp add: unat_sub word_le_nat_alt)
  moreover have "unat ?e \<le> unat n"
    using e by (simp only: word_le_nat_alt)
  ultimately have "unat ?s + unat (?e - ?s) \<le> unat n" by simp
  moreover have "unsigned_slice n start end = Inr \<lparr>offset = ?s, length' = ?e - ?s\<rparr>"
    using assms by (simp add: unsigned_slice_def Let_def)
  ultimately show ?thesis
    by simp
qed

lemma sub_within_ordered:
  assumes "0 \<le> sint start" and "sint start \<le> sint end"
  shows "\<exists>s. sub this start end = Inr s \<and> within (span s) (span this)"
proof -
  obtain r where r: "unsigned_slice (size_span this) start end = Inr r"
    and le: "unat (offset r) + unat (length' r) \<le> unat (size_span this)"
    using unsigned_slice_ordered [OF assms] by blast
  then show ?thesis
    by (simp add: sub_def within_def size_span_def)
qed

lemma at_last:
  assumes "parts this \<noteq> []" and "length (parts this) < 2 ^ 64"
  shows "at this (- 1) = Inr (Py_subspan (whole this) (last (parts this)))"
proof -
  let ?n = "of_nat (length (parts this)) :: 64 word"
  have n: "unat ?n = length (parts this)"
    using assms(2) by (rule unat_of_nat64)
  have pos: "0 < length (parts this)"
    using assms(1) by simp
  then have nz: "?n \<noteq> 0"
    using n by (metis less_numeral_extra(3) unat_0)
  then have one: "1 \<le> ?n"
    by (simp add: word_le_nat_alt unat_gt_0 Suc_le_eq)
  then have "unat (?n + - 1) = length (parts this) - 1"
    using n by (simp add: unat_sub)
  moreover have "\<not> ?n < 1"
    using nz by simp
  ultimately show ?thesis
    using pos by (simp add: at_def size_spans_def unsigned_offset_def last_conv_nth)
qed

lemma unsigned_slice_again:
  assumes "0 \<le> sint start" and "sint start \<le> sint end"
  shows "\<exists>r. unsigned_slice n start end = Inr r \<and>
              unsigned_slice (length' r) 0 (length' r) = Inr \<lparr>offset = 0, length' = length' r\<rparr>"
proof -
  let ?s = "if sint n < sint start then n else start"
  let ?e = "if sint n < sint end then n else end"
  have end0: "0 \<le> sint end"
    using assms by simp
  have r: "unsigned_slice n start end = Inr \<lparr>offset = ?s, length' = ?e - ?s\<rparr>"
    using assms(1) end0 by (simp add: unsigned_slice_def Let_def)
  have "0 \<le> sint (?e - ?s)"
  proof (cases "sint n < 0")
    case True
    then have "?e - ?s = 0"
      using assms(1) end0 by simp
    then show ?thesis
      by simp
  next
    case False
    then have n0: "0 \<le> sint n" by simp
    have e0: "0 \<le> sint ?e"
      using n0 end0 by simp
    have s0: "0 \<le> sint ?s"
      using n0 assms(1) by simp
    have "sint ?s \<le> sint ?e"
      using assms(2) by auto
    with s0 have "?s \<le> ?e"
      by (rule sint_le_word_le)
    then have "unat (?e - ?s) = unat ?e - unat ?s"
      by (rule unat_sub)
    moreover have "unat ?e < 2 ^ 63"
      using e0 by (simp only: sint_nonneg_unat)
    ultimately have "unat (?e - ?s) < 2 ^ 63"
      by simp
    then show ?thesis
      by (simp only: sint_nonneg_unat)
  qed
  then have "unsigned_slice (?e - ?s) 0 (?e - ?s) = Inr \<lparr>offset = 0, length' = ?e - ?s\<rparr>"
    by (simp add: unsigned_slice_def Let_def)
  with r show ?thesis
    by simp
qed

section \<open>Bytes of spans\<close>

lemma length_bytes [simp]: "length (bytes mem s) = unat (len s)"
  by (simp add: bytes_def)

lemma bytes_span_nil [simp]: "bytes mem span_nil = []"
  by (simp add: bytes_def span_nil_def)

lemma word_of_unat_len: "of_nat (unat (w :: 64 word)) = w"
  by simp

lemma unat_less_2p64: "unat (w :: 64 word) < 2 ^ 64"
  using unsigned_less [of w] by simp

lemma bytes_slice:
  assumes "a + n \<le> unat (len s)"
  shows "bytes mem \<lparr>ptr = ptr s + of_nat a, len = of_nat n\<rparr> = take n (drop a (bytes mem s))"
proof -
  have "n < 2 ^ 64"
    using assms unat_less_2p64 [of "len s"] by simp
  then have n: "unat (of_nat n :: 64 word) = n"
    by (rule unat_of_nat64)
  have "take n (drop a [0..<unat (len s)]) = [a..<a + n]"
    using assms by (simp add: take_upt)
  also have "\<dots> = map (\<lambda>i. i + a) [0..<n]"
    by (simp add: map_add_upt add.commute)
  finally have "take n (drop a (bytes mem s))
                  = map (\<lambda>i. mem (ptr s + of_nat i)) (map (\<lambda>i. i + a) [0..<n])"
    by (simp add: bytes_def take_map drop_map)
  then show ?thesis
    by (simp add: bytes_def n comp_def ac_simps)
qed

lemma bytes_after_n:
  assumes "unat off = a"
  shows "bytes mem (after_n s off) = drop a (bytes mem s)"
proof (cases "off < len s")
  case True
  then have le: "a \<le> unat (len s)"
    using assms by (simp add: word_less_nat_alt)
  have "off \<le> len s"
    using True by simp
  then have "unat (len s - off) = unat (len s) - a"
    using assms by (simp add: unat_sub)
  then have "len s - off = of_nat (unat (len s) - a)"
    by (metis word_of_unat_len)
  moreover have "off = of_nat a"
    using assms by (metis word_of_unat_len)
  ultimately have "after_n s off = \<lparr>ptr = ptr s + of_nat a, len = of_nat (unat (len s) - a)\<rparr>"
    using True by (simp add: after_n_def)
  then show ?thesis
    using le bytes_slice [of a "unat (len s) - a" s mem] by simp
next
  case False
  then have "unat (len s) \<le> a"
    using assms by (simp add: word_less_nat_alt)
  then show ?thesis
    using False by (simp add: after_n_def)
qed

section \<open>The search kernels: first occurrence and counts\<close>

lemma find_substr_le: "strzl_naive_find_substr xs n \<le> length xs"
  by (induction xs) auto

lemma find_substr_found:
  "strzl_naive_find_substr xs n < length xs \<Longrightarrow> prefix n (drop (strzl_naive_find_substr xs n) xs)"
  by (induction xs) (auto split: if_splits)

lemma find_substr_first:
  "j < strzl_naive_find_substr xs n \<Longrightarrow> \<not> prefix n (drop j xs)"
proof (induction xs arbitrary: j)
  case Nil
  then show ?case by simp
next
  case (Cons x xs)
  show ?case
  proof (cases j)
    case 0
    with Cons.prems show ?thesis by (auto split: if_splits)
  next
    case (Suc k)
    with Cons.prems have "k < strzl_naive_find_substr xs n"
      by (auto split: if_splits)
    then have "\<not> prefix n (drop k xs)"
      by (rule Cons.IH)
    with Suc show ?thesis by simp
  qed
qed

lemma find_substr_none:
  assumes "n \<noteq> []" and "strzl_naive_find_substr xs n = length xs"
  shows "\<not> prefix n (drop j xs)"
proof (cases "j < length xs")
  case True
  with assms(2) show ?thesis by (simp add: find_substr_first)
next
  case False
  with assms(1) show ?thesis by simp
qed

lemma find_substr_fits:
  assumes "strzl_naive_find_substr xs n < length xs"
  shows "strzl_naive_find_substr xs n + length n \<le> length xs"
proof -
  have "prefix n (drop (strzl_naive_find_substr xs n) xs)"
    using assms by (rule find_substr_found)
  then have "length n \<le> length (drop (strzl_naive_find_substr xs n) xs)"
    by (rule prefix_length_le)
  then show ?thesis using assms by simp
qed

lemma find_substr_split:
  assumes "strzl_naive_find_substr xs n < length xs"
  shows "xs = take (strzl_naive_find_substr xs n) xs @ n
               @ drop (strzl_naive_find_substr xs n + length n) xs"
proof -
  let ?o = "strzl_naive_find_substr xs n"
  have "prefix n (drop ?o xs)"
    using assms by (rule find_substr_found)
  then obtain r where r: "drop ?o xs = n @ r"
    by (auto simp: prefix_def)
  then have "drop (length n) (drop ?o xs) = r"
    by simp
  then have "drop (?o + length n) xs = r"
    by (simp add: add.commute)
  with r have "drop ?o xs = n @ drop (?o + length n) xs"
    by simp
  then show ?thesis
    by (metis append_take_drop_id)
qed

lemma find_char_find_substr: "strzl_naive_find_char xs c = strzl_naive_find_substr xs [c]"
  by (induction xs) auto

lemma count_substr_Nil [simp]: "strzl_naive_count_substr [] n overlap = 0"
  by (simp add: strzl_naive_count_substr.simps)

lemma count_substr_step:
  assumes "n \<noteq> []"
  shows "strzl_naive_count_substr xs n False =
           (if strzl_naive_find_substr xs n < length xs
            then Suc (strzl_naive_count_substr (drop (strzl_naive_find_substr xs n + length n) xs) n False)
            else 0)"
proof (induction xs)
  case Nil
  show ?case by simp
next
  case (Cons x xs)
  show ?case
  proof (cases "prefix n (x # xs)")
    case True
    then show ?thesis
      using assms by (subst strzl_naive_count_substr.simps) simp
  next
    case False
    have "strzl_naive_count_substr (x # xs) n False = strzl_naive_count_substr xs n False"
      using assms False by (subst strzl_naive_count_substr.simps) simp
    then show ?thesis
      using False Cons.IH by simp
  qed
qed

lemma count_char_count_substr:
  "strzl_naive_count_char xs c = strzl_naive_count_substr xs [c] False"
proof (induction xs)
  case Nil
  show ?case by simp
next
  case (Cons x xs)
  show ?case
    using Cons.IH by (subst strzl_naive_count_substr.simps) auto
qed

lemma count_substr_le: "n \<noteq> [] \<Longrightarrow> strzl_naive_count_substr xs n False \<le> length xs"
proof (induction xs rule: length_induct)
  case (1 xs)
  let ?o = "strzl_naive_find_substr xs n"
  show ?case
  proof (cases "?o < length xs")
    case True
    have pos: "0 < length n" using "1.prems" by simp
    have "length (drop (?o + length n) xs) < length xs"
      unfolding length_drop using True pos by linarith
    then have "strzl_naive_count_substr (drop (?o + length n) xs) n False
                 \<le> length (drop (?o + length n) xs)"
      using "1.IH" "1.prems" by blast
    moreover have "strzl_naive_count_substr xs n False
                 = Suc (strzl_naive_count_substr (drop (?o + length n) xs) n False)"
      using True count_substr_step [OF "1.prems", of xs] by simp
    ultimately show ?thesis
      using True pos unfolding length_drop by linarith
  next
    case False
    then show ?thesis
      using count_substr_step [OF "1.prems", of xs] by simp
  qed
qed

section \<open>The scan on byte lists: its parts\<close>

lemma scan_parts_end:
  "sep \<noteq> [] \<Longrightarrow> length xs \<le> a \<Longrightarrow> scan_parts p sep keep xs a = [span_nil]"
  by (subst scan_parts.simps) simp

lemma scan_parts_found:
  assumes "sep \<noteq> []" and "a < length xs"
    and "strzl_naive_find_substr (drop a xs) sep < length xs - a"
  shows "scan_parts p sep keep xs a =
           \<lparr>ptr = p + of_nat a,
            len = of_nat (strzl_naive_find_substr (drop a xs) sep + (if keep then length sep else 0))\<rparr>
           # scan_parts p sep keep xs (a + strzl_naive_find_substr (drop a xs) sep + length sep)"
  using assms by (subst scan_parts.simps) (simp add: Let_def)

lemma scan_parts_rest:
  assumes "sep \<noteq> []" and "a < length xs"
    and "\<not> strzl_naive_find_substr (drop a xs) sep < length xs - a"
  shows "scan_parts p sep keep xs a = [\<lparr>ptr = p + of_nat a, len = of_nat (length xs - a)\<rparr>]"
proof -
  have "strzl_naive_find_substr (drop a xs) sep \<le> length xs - a"
    using find_substr_le [of "drop a xs" sep] by simp
  with assms(3) have "strzl_naive_find_substr (drop a xs) sep = length xs - a"
    by simp
  then show ?thesis
    using assms by (subst scan_parts.simps) (simp add: Let_def)
qed

lemma scan_parts_nonempty: "sep \<noteq> [] \<Longrightarrow> scan_parts p sep keep xs a \<noteq> []"
  by (subst scan_parts.simps) (simp add: Let_def)

lemma length_scan_parts:
  "sep \<noteq> [] \<Longrightarrow>
     length (scan_parts p sep keep xs a) = Suc (strzl_naive_count_substr (drop a xs) sep False)"
proof (induction p sep keep xs a rule: scan_parts.induct)
  case (1 p sep keep xs a)
  let ?o = "strzl_naive_find_substr (drop a xs) sep"
  show ?case
  proof (cases "a < length xs")
    case False
    then show ?thesis
      using "1.prems" by (simp add: scan_parts_end)
  next
    case True
    show ?thesis
    proof (cases "?o < length xs - a")
      case found: True
      have "length (scan_parts p sep keep xs (a + ?o + length sep))
              = Suc (strzl_naive_count_substr (drop (a + ?o + length sep) xs) sep False)"
        using "1.IH" [OF "1.prems" True refl found "1.prems"] .
      moreover have "strzl_naive_count_substr (drop a xs) sep False
              = Suc (strzl_naive_count_substr (drop (?o + length sep) (drop a xs)) sep False)"
        using found count_substr_step [OF "1.prems", of "drop a xs"] by simp
      moreover have "drop (?o + length sep) (drop a xs) = drop (a + ?o + length sep) xs"
        by (simp add: add.commute add.left_commute)
      ultimately show ?thesis
        using "1.prems" True found by (simp add: scan_parts_found)
    next
      case rest: False
      then have "strzl_naive_count_substr (drop a xs) sep False = 0"
        using count_substr_step [OF "1.prems", of "drop a xs"] by simp
      then show ?thesis
        using "1.prems" True rest by (simp add: scan_parts_rest)
    qed
  qed
qed

lemma concat_scan_parts:
  assumes "sep \<noteq> []"
  shows "concat (map (bytes mem) (scan_parts (ptr s) sep True (bytes mem s) a)) = drop a (bytes mem s)"
  using assms
proof (induction "ptr s" sep True "bytes mem s" a rule: scan_parts.induct)
  case (1 sep a)
  let ?xs = "bytes mem s"
  let ?o = "strzl_naive_find_substr (drop a ?xs) sep"
  show ?case
  proof (cases "a < length ?xs")
    case False
    then show ?thesis
      using "1.prems" by (simp add: scan_parts_end)
  next
    case True
    show ?thesis
    proof (cases "?o < length ?xs - a")
      case found: True
      have fits: "?o + length sep \<le> length (drop a ?xs)"
        using found find_substr_fits [of "drop a ?xs" sep] by simp
      then have "a + (?o + length sep) \<le> unat (len s)"
        using True by simp
      then have part: "bytes mem \<lparr>ptr = ptr s + of_nat a, len = of_nat (?o + length sep)\<rparr>
                         = take (?o + length sep) (drop a ?xs)"
        by (rule bytes_slice)
      have ih: "concat (map (bytes mem) (scan_parts (ptr s) sep True ?xs (a + ?o + length sep)))
              = drop (a + ?o + length sep) ?xs"
        using "1.hyps" [OF "1.prems" True refl found "1.prems"] .
      have e: "drop (a + ?o + length sep) ?xs = drop (?o + length sep) (drop a ?xs)"
        by (simp add: add.commute add.left_commute)
      have "concat (map (bytes mem) (scan_parts (ptr s) sep True ?xs a))
              = bytes mem \<lparr>ptr = ptr s + of_nat a, len = of_nat (?o + length sep)\<rparr>
                @ concat (map (bytes mem) (scan_parts (ptr s) sep True ?xs (a + ?o + length sep)))"
        using "1.prems" True found by (simp add: scan_parts_found)
      also have "\<dots> = take (?o + length sep) (drop a ?xs) @ drop (?o + length sep) (drop a ?xs)"
        unfolding part ih e ..
      also have "\<dots> = drop a ?xs"
        by (rule append_take_drop_id)
      finally show ?thesis .
    next
      case rest: False
      have "a + (length ?xs - a) \<le> unat (len s)"
        using True by simp
      then have "bytes mem \<lparr>ptr = ptr s + of_nat a, len = of_nat (length ?xs - a)\<rparr>
                   = take (length ?xs - a) (drop a ?xs)"
        by (rule bytes_slice)
      then show ?thesis
        using "1.prems" True rest by (simp add: scan_parts_rest)
    qed
  qed
qed

lemma join_scan_parts:
  assumes "sep \<noteq> []"
  shows "join sep (map (bytes mem) (scan_parts (ptr s) sep False (bytes mem s) a))
           = drop a (bytes mem s)"
  using assms
proof (induction "ptr s" sep False "bytes mem s" a rule: scan_parts.induct)
  case (1 sep a)
  let ?xs = "bytes mem s"
  let ?o = "strzl_naive_find_substr (drop a ?xs) sep"
  show ?case
  proof (cases "a < length ?xs")
    case False
    then show ?thesis
      using "1.prems" by (simp add: scan_parts_end)
  next
    case True
    show ?thesis
    proof (cases "?o < length ?xs - a")
      case found: True
      let ?rest = "scan_parts (ptr s) sep False ?xs (a + ?o + length sep)"
      have "a + ?o \<le> unat (len s)"
        using found True by simp
      then have part: "bytes mem \<lparr>ptr = ptr s + of_nat a, len = of_nat ?o\<rparr>
                         = take ?o (drop a ?xs)"
        by (rule bytes_slice)
      have ih: "join sep (map (bytes mem) ?rest) = drop (a + ?o + length sep) ?xs"
        using "1.hyps" [OF "1.prems" True refl found "1.prems"] .
      obtain q qs where q: "?rest = q # qs"
        using scan_parts_nonempty [OF "1.prems", of "ptr s" False ?xs "a + ?o + length sep"]
        by (cases ?rest) auto
      have split: "drop a ?xs = take ?o (drop a ?xs) @ sep @ drop (?o + length sep) (drop a ?xs)"
        using found find_substr_split [of "drop a ?xs" sep] by simp
      have "drop (?o + length sep) (drop a ?xs) = drop (a + ?o + length sep) ?xs"
        by (simp add: add.commute add.left_commute)
      with split ih have "drop a ?xs = take ?o (drop a ?xs) @ sep @ join sep (map (bytes mem) ?rest)"
        by simp
      moreover have "join sep (map (bytes mem) (scan_parts (ptr s) sep False ?xs a))
                       = take ?o (drop a ?xs) @ sep @ join sep (map (bytes mem) ?rest)"
        using "1.prems" True found part q by (simp add: scan_parts_found)
      ultimately show ?thesis
        by simp
    next
      case rest: False
      have "a + (length ?xs - a) \<le> unat (len s)"
        using True by simp
      then have "bytes mem \<lparr>ptr = ptr s + of_nat a, len = of_nat (length ?xs - a)\<rparr>
                   = take (length ?xs - a) (drop a ?xs)"
        by (rule bytes_slice)
      then show ?thesis
        using "1.prems" True rest by (simp add: scan_parts_rest)
    qed
  qed
qed

lemma scan_ends_last_nil:
  "scan_ends_on_separator sep xs a \<Longrightarrow> last (scan_parts p sep keep xs a) = span_nil"
proof (induction sep xs a rule: scan_ends_on_separator.induct)
  case (1 sep xs a)
  let ?o = "strzl_naive_find_substr (drop a xs) sep"
  let ?a' = "a + ?o + length sep"
  from "1.prems" have sep: "sep \<noteq> []" and a: "a < length xs" and found: "?o < length xs - a"
    and ends: "?a' = length xs \<or> scan_ends_on_separator sep xs ?a'"
    by (subst (asm) scan_ends_on_separator.simps, simp add: Let_def split: if_splits)+
  have "last (scan_parts p sep keep xs ?a') = span_nil"
  proof (cases "?a' = length xs")
    case True
    then show ?thesis
      using sep by (simp add: scan_parts_end)
  next
    case False
    with ends have "scan_ends_on_separator sep xs ?a'" by simp
    then show ?thesis
      using "1.IH" [OF sep a refl found False] by simp
  qed
  then show ?case
    using sep a found scan_parts_nonempty [OF sep, of p keep xs ?a']
    by (simp add: scan_parts_found)
qed

section \<open>Words that hold sizes\<close>

lemma of_nat_less_word: "a < unat (w :: 64 word) \<Longrightarrow> of_nat a < w"
proof -
  assume a: "a < unat w"
  then have "a < 2 ^ 64"
    using unat_less_2p64 [of w] by simp
  then have "unat (of_nat a :: 64 word) = a"
    by (rule unat_of_nat64)
  with a show ?thesis
    by (simp add: word_less_nat_alt)
qed

lemma of_nat_not_less_word: "unat (w :: 64 word) \<le> a \<Longrightarrow> a < 2 ^ 64 \<Longrightarrow> \<not> of_nat a < w"
proof -
  assume a: "unat w \<le> a" and "a < 2 ^ 64"
  then have "unat (of_nat a :: 64 word) = a"
    by (simp add: unat_of_nat64)
  with a show ?thesis
    by (simp add: word_less_nat_alt)
qed

lemma of_nat_eq_word:
  "a < 2 ^ 64 \<Longrightarrow> b < 2 ^ 64 \<Longrightarrow> (of_nat a = (of_nat b :: 64 word)) = (a = b)"
  by (metis unat_of_nat64)

lemma len_after_n:
  assumes "a < unat (len s)"
  shows "after_n s (of_nat a) = \<lparr>ptr = ptr s + of_nat a, len = of_nat (unat (len s) - a)\<rparr>"
proof -
  have lt: "(of_nat a :: 64 word) < len s"
    using assms by (rule of_nat_less_word)
  have "a < 2 ^ 64"
    using assms unat_less_2p64 [of "len s"] by simp
  then have ua: "unat (of_nat a :: 64 word) = a"
    by (rule unat_of_nat64)
  have "(of_nat a :: 64 word) \<le> len s"
    using lt by simp
  then have "unat (len s - of_nat a) = unat (len s) - a"
    using ua by (simp add: unat_sub)
  then have "len s - of_nat a = of_nat (unat (len s) - a)"
    by (metis word_of_unat_len)
  then show ?thesis
    using lt by (simp add: after_n_def)
qed

lemma after_n_end:
  assumes "unat (len s) \<le> a" and "a < 2 ^ 64"
  shows "after_n s (of_nat a) = span_nil"
  using of_nat_not_less_word [OF assms] by (simp add: after_n_def)

section \<open>The loop of split against the scan\<close>

lemma split_loop_exit:
  "\<not> (ls < len s \<and> of_nat (length ps) + 1 < maxsplit) \<Longrightarrow>
     split_loop mem s sep maxsplit keep ps ls wc = (ps, ls, wc)"
  by (subst split_loop.simps) auto

lemma split_loop_step:
  assumes a: "a < unat (len s)" and cap: "length ps + 1 < unat maxsplit"
  shows "split_loop mem s sep maxsplit keep ps (of_nat a) wc =
           split_loop mem s sep maxsplit keep
             (ps @ [\<lparr>ptr = ptr s + of_nat a,
                     len = of_nat (strzl_naive_find_substr (drop a (bytes mem s)) sep
                             + (if keep \<and> strzl_naive_find_substr (drop a (bytes mem s)) sep
                                            < unat (len s) - a
                                then length sep else 0))\<rparr>])
             (of_nat (a + strzl_naive_find_substr (drop a (bytes mem s)) sep + length sep))
             (strzl_naive_find_substr (drop a (bytes mem s)) sep < unat (len s) - a)"
proof -
  let ?o = "strzl_naive_find_substr (drop a (bytes mem s)) sep"
  let ?rem = "\<lparr>ptr = ptr s + of_nat a, len = of_nat (unat (len s) - a)\<rparr>"
  have lt: "(of_nat a :: 64 word) < len s"
    using a by (rule of_nat_less_word)
  have "of_nat (length ps + 1) < maxsplit"
    using cap by (rule of_nat_less_word)
  then have c: "of_nat (length ps) + 1 < maxsplit"
    by (simp add: add.commute)
  have rem: "after_n s (of_nat a) = ?rem"
    using a by (rule len_after_n)
  have "a < 2 ^ 64"
    using a unat_less_2p64 [of "len s"] by simp
  then have "unat (of_nat a :: 64 word) = a"
    by (rule unat_of_nat64)
  then have "bytes mem (after_n s (of_nat a)) = drop a (bytes mem s)"
    by (rule bytes_after_n)
  then have f: "find_substr mem ?rem sep = of_nat ?o"
    by (simp add: find_substr_def rem)
  have ole: "?o \<le> unat (len s) - a"
    using find_substr_le [of "drop a (bytes mem s)" sep] by simp
  then have "?o < 2 ^ 64" "unat (len s) - a < 2 ^ 64"
    using unat_less_2p64 [of "len s"] by simp_all
  then have "((of_nat ?o :: 64 word) \<noteq> of_nat (unat (len s) - a)) = (?o \<noteq> unat (len s) - a)"
    by (simp add: of_nat_eq_word)
  then have w: "((of_nat ?o :: 64 word) \<noteq> of_nat (unat (len s) - a)) = (?o < unat (len s) - a)"
    using ole by auto
  show ?thesis
    using lt c
    by (subst split_loop.simps) (simp add: rem f w Let_def add.assoc)
qed

lemma split_loop_scan:
  assumes "sep \<noteq> []" and "unat (len s) + length sep < 2 ^ 64" and "a \<le> unat (len s)"
    and "length ps + length (scan_parts (ptr s) sep keep (bytes mem s) a) < unat maxsplit"
  shows "(case split_loop mem s sep maxsplit keep ps (of_nat a) True of
            (ps', ls, wc) \<Rightarrow> if wc then ps' @ [after_n s ls] else ps')
         = ps @ scan_parts (ptr s) sep keep (bytes mem s) a"
  using assms
proof (induction "ptr s" sep keep "bytes mem s" a arbitrary: ps rule: scan_parts.induct)
  case (1 sep keep a)
  let ?xs = "bytes mem s"
  let ?o = "strzl_naive_find_substr (drop a ?xs) sep"
  note sep = \<open>sep \<noteq> []\<close>
  note nowrap = \<open>unat (len s) + length sep < 2 ^ 64\<close>
  note a = \<open>a \<le> unat (len s)\<close>
  note cap = \<open>length ps + length (scan_parts (ptr s) sep keep ?xs a) < unat maxsplit\<close>
  show ?case
  proof (cases "a < length ?xs")
    case False
    with a have "unat (len s) \<le> a" by simp
    moreover have a64: "a < 2 ^ 64"
      using a unat_less_2p64 [of "len s"] by simp
    ultimately have "\<not> (of_nat a :: 64 word) < len s" and "after_n s (of_nat a) = span_nil"
      by (simp_all add: of_nat_not_less_word after_n_end)
    then have "(case split_loop mem s sep maxsplit keep ps (of_nat a) True of
                  (ps', ls, wc) \<Rightarrow> if wc then ps' @ [after_n s ls] else ps') = ps @ [span_nil]"
      by (simp add: split_loop_exit)
    then show ?thesis
      using sep False by (simp add: scan_parts_end)
  next
    case True
    then have aL: "a < unat (len s)" by simp
    have "scan_parts (ptr s) sep keep ?xs a \<noteq> []"
      using sep by (rule scan_parts_nonempty)
    then have "1 \<le> length (scan_parts (ptr s) sep keep ?xs a)"
      by (simp add: Suc_le_eq)
    with cap have cap1: "length ps + 1 < unat maxsplit"
      by linarith
    note step = split_loop_step [OF aL cap1, of mem sep keep True]
    show ?thesis
    proof (cases "?o < length ?xs - a")
      case found: True
      let ?part = "\<lparr>ptr = ptr s + of_nat a, len = of_nat (?o + (if keep then length sep else 0))\<rparr>"
      let ?a' = "a + ?o + length sep"
      have scan: "scan_parts (ptr s) sep keep ?xs a = ?part # scan_parts (ptr s) sep keep ?xs ?a'"
        using sep True found by (rule scan_parts_found)
      have "?o + length sep \<le> length (drop a ?xs)"
        using found find_substr_fits [of "drop a ?xs" sep] by simp
      then have a': "?a' \<le> unat (len s)"
        using aL by simp
      have cap': "length (ps @ [?part]) + length (scan_parts (ptr s) sep keep ?xs ?a') < unat maxsplit"
        using cap scan by simp
      have "(case split_loop mem s sep maxsplit keep (ps @ [?part]) (of_nat ?a') True of
               (ps', ls, wc) \<Rightarrow> if wc then ps' @ [after_n s ls] else ps')
            = (ps @ [?part]) @ scan_parts (ptr s) sep keep ?xs ?a'"
        using "1.hyps" [OF sep True refl found sep nowrap a' cap'] .
      moreover have "split_loop mem s sep maxsplit keep ps (of_nat a) True
                       = split_loop mem s sep maxsplit keep (ps @ [?part]) (of_nat ?a') True"
        using step found by simp
      ultimately show ?thesis
        using scan by simp
    next
      case rest: False
      let ?part = "\<lparr>ptr = ptr s + of_nat a, len = of_nat (unat (len s) - a)\<rparr>"
      have "?o \<le> length ?xs - a"
        using find_substr_le [of "drop a ?xs" sep] by simp
      with rest have o: "?o = unat (len s) - a"
        by simp
      have scan: "scan_parts (ptr s) sep keep ?xs a = [?part]"
        using scan_parts_rest [OF sep True rest] by simp
      have "unat (len s) \<le> a + ?o + length sep" and "a + ?o + length sep < 2 ^ 64"
        using o aL nowrap by simp_all
      then have "\<not> (of_nat (a + ?o + length sep) :: 64 word) < len s"
        by (rule of_nat_not_less_word)
      then have "split_loop mem s sep maxsplit keep (ps @ [?part]) (of_nat (a + ?o + length sep)) False
                   = (ps @ [?part], of_nat (a + ?o + length sep), False)"
        by (simp add: split_loop_exit)
      moreover have "split_loop mem s sep maxsplit keep ps (of_nat a) True
                       = split_loop mem s sep maxsplit keep (ps @ [?part])
                           (of_nat (a + ?o + length sep)) False"
        using step rest o by simp
      ultimately show ?thesis
        using scan by simp
    qed
  qed
qed

section \<open>The loop of splitlines against the scan\<close>

lemma count_char_drop_le: "strzl_naive_count_char xs c \<le> length xs"
  by (induction xs) auto

lemma splitlines_loop_exit:
  "\<not> i + 1 < of_nat (length ps) \<Longrightarrow>
     splitlines_loop mem s keep c ps i ls = Inr (ps, ls)"
  by (subst splitlines_loop.simps) simp

lemma splitlines_loop_step:
  assumes j: "j + 1 < length ps" and n: "length ps < 2 ^ 64" and a: "a \<le> unat (len s)"
  shows "splitlines_loop mem s keep c ps (of_nat j) (of_nat a) =
           splitlines_loop mem s keep c
             (ps[j := \<lparr>ptr = ptr s + of_nat a,
                       len = of_nat (strzl_naive_find_substr (drop a (bytes mem s)) [c]
                               + (if keep then length [c] else 0))\<rparr>])
             (of_nat (j + 1))
             (of_nat (a + strzl_naive_find_substr (drop a (bytes mem s)) [c] + length [c]))"
proof -
  let ?o = "strzl_naive_find_substr (drop a (bytes mem s)) [c]"
  have "unat (of_nat (length ps) :: 64 word) = length ps"
    using n by (rule unat_of_nat64)
  then have "(of_nat (j + 1) :: 64 word) < of_nat (length ps)"
    using j by (simp only: of_nat_less_word)
  then have c1: "(of_nat j :: 64 word) + 1 < of_nat (length ps)"
    by (simp add: add.commute)
  have "j < 2 ^ 64"
    using j n by simp
  then have uj: "unat (of_nat j :: 64 word) = j"
    by (rule unat_of_nat64)
  then have c2: "unat (of_nat j :: 64 word) < length ps"
    using j by simp
  have "a < 2 ^ 64"
    using a unat_less_2p64 [of "len s"] by simp
  then have "unat (of_nat a :: 64 word) = a"
    by (rule unat_of_nat64)
  then have "bytes mem (after_n s (of_nat a)) = drop a (bytes mem s)"
    by (rule bytes_after_n)
  then have f: "find_substr_char mem (after_n s (of_nat a)) c = of_nat ?o"
    by (simp add: find_substr_char_def find_char_find_substr)
  show ?thesis
    using c1 c2
    by (subst splitlines_loop.simps) (simp add: f uj Let_def ac_simps)
qed

lemma splitlines_loop_scan:
  assumes "length ps = N" and "N < 2 ^ 64" and "j < N" and "a \<le> unat (len s)"
    and "strzl_naive_count_substr (drop a (bytes mem s)) [c] False = N - 1 - j"
  shows "\<exists>ps' ls. splitlines_loop mem s keep c ps (of_nat j) (of_nat a) = Inr (ps', ls)
           \<and> length ps' = N
           \<and> ps'[N - 1 := after_n s ls] = take j ps @ scan_parts (ptr s) [c] keep (bytes mem s) a"
  using assms
proof (induction "ptr s" "[c]" keep "bytes mem s" a arbitrary: ps j rule: scan_parts.induct)
  case (1 keep a)
  let ?xs = "bytes mem s"
  let ?o = "strzl_naive_find_substr (drop a ?xs) [c]"
  note len = \<open>length ps = N\<close>
  note N = \<open>N < 2 ^ 64\<close>
  note j = \<open>j < N\<close>
  note a = \<open>a \<le> unat (len s)\<close>
  note cnt = \<open>strzl_naive_count_substr (drop a ?xs) [c] False = N - 1 - j\<close>
  have sep: "[c] \<noteq> []" by simp
  have step_cnt: "strzl_naive_count_substr (drop a ?xs) [c] False =
           (if ?o < length (drop a ?xs)
            then Suc (strzl_naive_count_substr (drop (?o + length [c]) (drop a ?xs)) [c] False)
            else 0)"
    using count_substr_step [OF sep, of "drop a ?xs"] .
  have last_upd: "\<And>v. ps[N - 1 := v] = take (N - 1) ps @ [v]"
    using len j by (simp add: upd_conv_take_nth_drop)
  have a64: "a < 2 ^ 64"
    using a unat_less_2p64 [of "len s"] by simp
  show ?case
  proof (cases "?o < length ?xs - a")
    case found: True
    then have aL: "a < length ?xs" by simp
    let ?part = "\<lparr>ptr = ptr s + of_nat a, len = of_nat (?o + (if keep then length [c] else 0))\<rparr>"
    let ?a' = "a + ?o + length [c]"
    have scan: "scan_parts (ptr s) [c] keep ?xs a = ?part # scan_parts (ptr s) [c] keep ?xs ?a'"
      using sep aL found by (rule scan_parts_found)
    have e: "drop (?o + length [c]) (drop a ?xs) = drop ?a' ?xs"
      by (simp add: add.commute add.left_commute)
    have cnt': "strzl_naive_count_substr (drop ?a' ?xs) [c] False = N - 1 - (j + 1)"
      using step_cnt found cnt unfolding e by simp
    have "0 < N - 1 - j"
      using step_cnt found cnt by simp
    then have j1: "j + 1 < N" by simp
    have "?o + length [c] \<le> length (drop a ?xs)"
      using found find_substr_fits [of "drop a ?xs" "[c]"] by simp
    then have a': "?a' \<le> unat (len s)"
      using aL by simp
    have len': "length (ps[j := ?part]) = N"
      using len by simp
    obtain ps' ls where run: "splitlines_loop mem s keep c (ps[j := ?part]) (of_nat (j + 1)) (of_nat ?a')
                                = Inr (ps', ls)"
      and l: "length ps' = N"
      and r: "ps'[N - 1 := after_n s ls]
                = take (j + 1) (ps[j := ?part]) @ scan_parts (ptr s) [c] keep ?xs ?a'"
      using "1.hyps" [OF sep aL refl found len' N j1 a' cnt'] by blast
    have "take (j + 1) (ps[j := ?part]) = take j ps @ [?part]"
      using len j by (simp add: take_Suc_conv_app_nth)
    with r scan have "ps'[N - 1 := after_n s ls] = take j ps @ scan_parts (ptr s) [c] keep ?xs a"
      by simp
    moreover have "splitlines_loop mem s keep c ps (of_nat j) (of_nat a)
                     = splitlines_loop mem s keep c (ps[j := ?part]) (of_nat (j + 1)) (of_nat ?a')"
      using j1 N a len by (simp only: splitlines_loop_step)
    ultimately show ?thesis
      using run l by simp
  next
    case rest: False
    then have "strzl_naive_count_substr (drop a ?xs) [c] False = 0"
      using step_cnt by simp
    with cnt j have jN: "j = N - 1" by simp
    have "(of_nat j :: 64 word) + 1 = of_nat N"
      using jN j by simp
    then have "\<not> (of_nat j :: 64 word) + 1 < of_nat (length ps)"
      using len by simp
    then have run: "splitlines_loop mem s keep c ps (of_nat j) (of_nat a) = Inr (ps, of_nat a)"
      by (rule splitlines_loop_exit)
    have "[after_n s (of_nat a)] = scan_parts (ptr s) [c] keep ?xs a"
    proof (cases "a < length ?xs")
      case True
      then have "after_n s (of_nat a) = \<lparr>ptr = ptr s + of_nat a, len = of_nat (unat (len s) - a)\<rparr>"
        by (simp add: len_after_n)
      then show ?thesis
        using scan_parts_rest [OF sep True rest] by simp
    next
      case False
      then have "after_n s (of_nat a) = span_nil"
        using a64 by (simp add: after_n_end)
      then show ?thesis
        using False by (simp add: scan_parts_end)
    qed
    then have "ps[N - 1 := after_n s (of_nat a)] = take j ps @ scan_parts (ptr s) [c] keep ?xs a"
      using last_upd jN by simp
    then show ?thesis
      using run len by simp
  qed
qed

lemma splitlines_loop_result:
  "splitlines_loop mem s keep c ps i ls = Inl Undefined_behaviour
   \<or> (\<exists>ps' ls'. splitlines_loop mem s keep c ps i ls = Inr (ps', ls') \<and> length ps' = length ps)"
proof (induction mem s keep c ps i ls rule: splitlines_loop.induct)
  case (1 mem this keeplinebreaks separator ps i last_start)
  show ?case
  proof (cases "i + 1 < of_nat (length ps)")
    case False
    then show ?thesis
      by (simp add: splitlines_loop_exit)
  next
    case True
    show ?thesis
    proof (cases "unat i < length ps")
      case False
      with True show ?thesis
        by (subst splitlines_loop.simps) simp
    next
      case i: True
      show ?thesis
        using "1.IH" [OF True i refl refl] True i
        by (subst (1 2) splitlines_loop.simps) (simp add: Let_def)
    qed
  qed
qed

lemma splitlines_capped_undefined:
  assumes L: "unat (len (span this)) < 2 ^ 63"
    and cap: "unat maxsplit \<le> strzl_naive_count_char (bytes mem (span this)) c"
  shows "splitlines mem this keep c maxsplit = Inl Undefined_behaviour"
proof -
  let ?k = "strzl_naive_count_char (bytes mem (span this)) c"
  let ?ps = "replicate (unat (min (of_nat ?k + 1) maxsplit)) span_nil"
  have "?k \<le> length (bytes mem (span this))"
    by (rule count_char_drop_le)
  then have "?k < 2 ^ 64"
    using L by simp
  then have uk: "unat (of_nat ?k :: 64 word) = ?k"
    by (rule unat_of_nat64)
  have "min ((of_nat ?k :: 64 word) + 1) maxsplit \<le> maxsplit"
    by simp
  then have "unat (min ((of_nat ?k :: 64 word) + 1) maxsplit) \<le> unat maxsplit"
    by (simp only: word_le_nat_alt)
  then have small: "length ?ps \<le> ?k"
    using cap by simp
  have k: "count_substr_char mem (span this) c = of_nat ?k"
    by (simp add: count_substr_char_def)
  consider "splitlines_loop mem (span this) keep c ?ps 0 0 = Inl Undefined_behaviour"
    | ps' ls' where "splitlines_loop mem (span this) keep c ?ps 0 0 = Inr (ps', ls')"
        and "length ps' = length ?ps"
    using splitlines_loop_result [of mem "span this" keep c ?ps 0 0] by blast
  then show ?thesis
  proof cases
    case 1
    then show ?thesis
      unfolding splitlines_def Let_def k by simp
  next
    case 2
    then have "\<not> unat (of_nat ?k :: 64 word) < length ps'"
      using small uk by simp
    with 2 show ?thesis
      unfolding splitlines_def Let_def k by simp
  qed
qed

section \<open>splitlines and split against the scan\<close>

lemma splitlines_scan:
  assumes L: "unat (len (span this)) < 2 ^ 63"
    and cap: "strzl_naive_count_substr (bytes mem (span this)) [c] False < unat maxsplit"
  shows "splitlines mem this keep c maxsplit =
           Inr \<lparr>whole = this,
                parts = scan_parts (ptr (span this)) [c] keep (bytes mem (span this)) 0\<rparr>"
proof -
  let ?s = "span this"
  let ?xs = "bytes mem ?s"
  let ?k = "strzl_naive_count_substr ?xs [c] False"
  let ?N = "?k + 1"
  have k: "count_substr_char mem ?s c = of_nat ?k"
    by (simp add: count_substr_char_def count_char_count_substr)
  have "?k \<le> length ?xs"
    by (rule count_substr_le) simp
  then have kL: "?k < 2 ^ 63"
    using L by simp
  then have N64: "?N < 2 ^ 64"
    by simp
  have uk: "unat (of_nat ?k :: 64 word) = ?k"
    using kL by (simp add: unat_of_nat64)
  have uN: "unat (of_nat ?N :: 64 word) = ?N"
    using N64 by (rule unat_of_nat64)
  have eqN: "(of_nat ?k :: 64 word) + 1 = of_nat ?N"
    by simp
  have "(of_nat ?N :: 64 word) \<le> maxsplit"
    using cap uN by (simp only: word_le_nat_alt)
  then have "min (of_nat ?N) maxsplit = (of_nat ?N :: 64 word)"
    by (rule min_absorb1)
  then have size: "unat (min (of_nat ?k + 1) maxsplit) = ?N"
    unfolding eqN using uN by (simp only:)
  let ?ps = "replicate ?N span_nil"
  have "\<exists>ps' ls. splitlines_loop mem ?s keep c ?ps (of_nat 0) (of_nat 0) = Inr (ps', ls)
           \<and> length ps' = ?N
           \<and> ps'[?N - 1 := after_n ?s ls] = take 0 ?ps @ scan_parts (ptr ?s) [c] keep ?xs 0"
    by (rule splitlines_loop_scan) (use N64 in simp_all)
  then obtain ps' ls where run: "splitlines_loop mem ?s keep c ?ps 0 0 = Inr (ps', ls)"
    and len: "length ps' = ?N"
    and res: "ps'[?k := after_n ?s ls] = scan_parts (ptr ?s) [c] keep ?xs 0"
    by auto
  show ?thesis
    unfolding splitlines_def Let_def k size
    using run len res uk by simp
qed

lemma split_scan:
  assumes sep: "separator \<noteq> []"
    and L: "unat (len (span this)) < 2 ^ 63"
    and S: "length separator < 2 ^ 63"
    and cap: "strzl_naive_count_substr (bytes mem (span this)) separator False + 1 < unat maxsplit"
  shows "split mem this separator maxsplit keep =
           Inr \<lparr>whole = this,
                parts = scan_parts (ptr (span this)) separator keep (bytes mem (span this)) 0\<rparr>"
proof (cases "length separator = 1 \<and> maxsplit = ssize_max_k")
  case True
  then obtain c where c: "separator = [c]"
    by (cases separator) auto
  have "strzl_naive_count_substr (bytes mem (span this)) [c] False < unat maxsplit"
    using cap c by simp
  then show ?thesis
    using True c splitlines_scan [OF L, of mem c maxsplit keep] by (simp add: split_def)
next
  case False
  let ?s = "span this"
  have nowrap: "unat (len ?s) + length separator < 2 ^ 64"
    using L S by simp
  have "length ([] :: span_t list)
          + length (scan_parts (ptr ?s) separator keep (bytes mem ?s) 0) < unat maxsplit"
    using cap sep by (simp add: length_scan_parts)
  then have "(case split_loop mem ?s separator maxsplit keep [] (of_nat 0) True of
                (ps', ls, wc) \<Rightarrow> if wc then ps' @ [after_n ?s ls] else ps')
             = [] @ scan_parts (ptr ?s) separator keep (bytes mem ?s) 0"
    using sep nowrap by (intro split_loop_scan) simp_all
  then show ?thesis
    using False by (auto simp: split_def split: prod.splits)
qed

lemma split_default_eq_splitlines:
  assumes "unat (len (span this)) < 2 ^ 63"
  shows "split mem this [c] size_max_k keep = splitlines mem this keep c size_max_k"
proof -
  let ?k = "strzl_naive_count_substr (bytes mem (span this)) [c] False"
  have "?k \<le> length (bytes mem (span this))"
    by (rule count_substr_le) simp
  then have "?k < 2 ^ 63"
    using assms by simp
  then have cap: "?k + 1 < unat size_max_k"
    by (simp add: size_max_k_def)
  then have cap': "?k < unat size_max_k"
    by simp
  show ?thesis
    using split_scan [OF _ assms _ cap, of keep] splitlines_scan [OF assms cap', of keep]
    by simp
qed

lemma scan_ends_single_byte:
  assumes "xs \<noteq> []" and "last xs = c" and "a < length xs"
  shows "scan_ends_on_separator [c] xs a"
  using assms
proof (induction "[c]" xs a rule: scan_ends_on_separator.induct)
  case (1 xs a)
  let ?o = "strzl_naive_find_substr (drop a xs) [c]"
  have "drop a xs \<noteq> []"
    using "1.prems" by simp
  then have "last (drop a xs) = c"
    using "1.prems" by simp
  then have "prefix [c] (drop (length (drop a xs) - 1) (drop a xs))"
    using \<open>drop a xs \<noteq> []\<close>
    by (metis append_butlast_last_id append_eq_conv_conj length_butlast prefix_order.order_refl)
  then have "\<not> ?o = length (drop a xs)"
    using find_substr_none [of "[c]" "drop a xs" "length (drop a xs) - 1"] by auto
  then have found: "?o < length xs - a"
    using find_substr_le [of "drop a xs" "[c]"] by simp
  have fits: "a + ?o + length [c] \<le> length xs"
    using found by simp
  show ?case
  proof (cases "a + ?o + length [c] = length xs")
    case True
    then show ?thesis
      using "1.prems" found by (subst scan_ends_on_separator.simps) (simp add: Let_def)
  next
    case False
    then have "a + ?o + length [c] < length xs"
      using fits by simp
    then have "scan_ends_on_separator [c] xs (a + ?o + length [c])"
      using "1.hyps" [OF _ "1.prems"(3) refl found False "1.prems"(1,2)] by simp
    then show ?thesis
      using "1.prems" found False by (subst scan_ends_on_separator.simps) (simp add: Let_def)
  qed
qed

section \<open>find on a resolved slice\<close>

lemma find_resolved:
  assumes needle: "needle \<noteq> []" and part: "subspan (span this) start end = Inr part"
  shows "find mem this needle start end =
           Inr (if strzl_naive_find_substr (bytes mem part) needle < length (bytes mem part)
                then of_nat (strzl_naive_find_substr (bytes mem part) needle) else - 1)"
proof -
  let ?xs = "bytes mem part"
  let ?o = "strzl_naive_find_substr ?xs needle"
  have "length needle = 1 \<Longrightarrow> needle = [hd needle]"
    by (cases needle) auto
  then have "length needle = 1 \<Longrightarrow> find_substr_char mem part (hd needle) = of_nat ?o"
    by (simp add: find_substr_char_def find_char_find_substr)
  then have off: "(if length needle = 1 then find_substr_char mem part (hd needle)
                   else find_substr mem part needle) = of_nat ?o"
    by (simp add: find_substr_def)
  have ole: "?o \<le> unat (len part)"
    using find_substr_le [of ?xs needle] by simp
  then have "?o < 2 ^ 64"
    using unat_less_2p64 [of "len part"] by simp
  then have "unat (of_nat ?o :: 64 word) = ?o"
    by (rule unat_of_nat64)
  then have "((of_nat ?o :: 64 word) \<noteq> len part) = (?o \<noteq> unat (len part))"
    by (metis word_of_unat_len)
  then have ne: "((of_nat ?o :: 64 word) \<noteq> len part) = (?o < length ?xs)"
    using ole by auto
  have "find mem this needle start end =
          Inr (let off = (if length needle = 1 then find_substr_char mem part (hd needle)
                          else find_substr mem part needle)
               in if off \<noteq> len part then off else - 1)"
    using needle part by (simp add: find_def Let_def)
  also have "\<dots> = Inr (if (of_nat ?o :: 64 word) \<noteq> len part then of_nat ?o else - 1)"
    unfolding off Let_def ..
  also have "\<dots> = Inr (if ?o < length ?xs then of_nat ?o else - 1)"
    unfolding ne ..
  finally show ?thesis .
qed

lemma subspan_ordered:
  assumes "0 \<le> sint start" and "sint start \<le> sint end" and "unat (len s) < 2 ^ 63"
  shows "\<exists>part. subspan s start end = Inr part
           \<and> bytes mem part = drop (unat start) (take (unat end) (bytes mem s))"
proof -
  let ?L = "len s"
  let ?s' = "if sint ?L < sint start then ?L else start"
  let ?e' = "if sint ?L < sint end then ?L else end"
  have end0: "0 \<le> sint end"
    using assms by simp
  have L0: "0 \<le> sint ?L"
    using assms(3) by (simp add: sint_nonneg_unat)
  have sL: "sint ?L = uint ?L" and ss: "sint start = uint start" and se: "sint end = uint end"
    using L0 assms(1) end0 by (simp_all add: sint_nonneg_uint)
  have "(sint ?L < sint start) = (unat ?L < unat start)"
    unfolding sL ss by (simp only: word_less_def [symmetric] word_less_nat_alt)
  then have us: "unat ?s' = min (unat start) (unat ?L)"
    by (simp add: min_def)
  have "(sint ?L < sint end) = (unat ?L < unat end)"
    unfolding sL se by (simp only: word_less_def [symmetric] word_less_nat_alt)
  then have ue: "unat ?e' = min (unat end) (unat ?L)"
    by (simp add: min_def)
  have "start \<le> end"
    using assms(1,2) by (rule sint_le_word_le)
  then have le: "unat start \<le> unat end"
    by (simp only: word_le_nat_alt)
  then have "unat ?s' \<le> unat ?e'"
    unfolding us ue by (simp add: min_def)
  then have s'e': "?s' \<le> ?e'"
    by (simp only: word_le_nat_alt)
  then have ud: "unat (?e' - ?s') = unat ?e' - unat ?s'"
    by (rule unat_sub)
  have fit: "unat ?s' + (unat ?e' - unat ?s') \<le> unat (len s)"
    using \<open>unat ?s' \<le> unat ?e'\<close> ue by simp
  have "subspan s start end = Inr \<lparr>ptr = ptr s + ?s', len = ?e' - ?s'\<rparr>"
    using assms(1) end0 by (simp add: subspan_def unsigned_slice_def Let_def)
  moreover have "\<lparr>ptr = ptr s + ?s', len = ?e' - ?s'\<rparr>
                   = \<lparr>ptr = ptr s + of_nat (unat ?s'), len = of_nat (unat ?e' - unat ?s')\<rparr>"
    by (simp only: word_of_unat_len flip: ud)
  moreover have "bytes mem \<lparr>ptr = ptr s + of_nat (unat ?s'), len = of_nat (unat ?e' - unat ?s')\<rparr>
                   = take (unat ?e' - unat ?s') (drop (unat ?s') (bytes mem s))"
    using fit by (rule bytes_slice)
  moreover have "take (unat ?e' - unat ?s') (drop (unat ?s') (bytes mem s))
                   = drop (unat start) (take (unat end) (bytes mem s))"
  proof -
    have "take (unat ?e' - unat ?s') (drop (unat ?s') (bytes mem s))
            = drop (unat ?s') (take (unat ?e') (bytes mem s))"
      by (simp only: drop_take)
    also have "take (unat ?e') (bytes mem s) = take (unat end) (bytes mem s)"
      unfolding ue by (simp add: min_def)
    also have "drop (unat ?s') (take (unat end) (bytes mem s))
                 = drop (unat start) (take (unat end) (bytes mem s))"
      unfolding us by (simp add: min_def)
    finally show ?thesis .
  qed
  ultimately show ?thesis
    by simp
qed

section \<open>The scenarios of the specification\<close>

text \<open>
  The scenarios of section 8 of the specification, run on the model: the text
  \<open>a,bb,,c\<close> split on \<open>,\<close>, the text of two lines split into lines, and the two counts.
\<close>

lemma scenario_split:
  "split (store_bytes 4096 ''a,bb,,c'' zero_memory) (py_str_t 4096 ''a,bb,,c'') '','' size_max_k False
     = Inr \<lparr>whole = py_str_t 4096 ''a,bb,,c'',
            parts = [\<lparr>ptr = 4096, len = 1\<rparr>, \<lparr>ptr = 4098, len = 2\<rparr>, \<lparr>ptr = 4101, len = 0\<rparr>,
                     \<lparr>ptr = 4102, len = 1\<rparr>]\<rparr>
   \<and> map (bytes (store_bytes 4096 ''a,bb,,c'' zero_memory))
         [\<lparr>ptr = 4096, len = 1\<rparr>, \<lparr>ptr = 4098, len = 2\<rparr>, \<lparr>ptr = 4101, len = 0\<rparr>,
          \<lparr>ptr = 4102, len = 1\<rparr>]
     = [''a'', ''bb'', [], ''c'']"
  by code_simp

lemma scenario_splitlines:
  "splitlines (store_bytes 4096 ''line1\<newline>line2\<newline>'' zero_memory)
       (py_str_t 4096 ''line1\<newline>line2\<newline>'') False CHR ''\<newline>'' size_max_k
     = Inr \<lparr>whole = py_str_t 4096 ''line1\<newline>line2\<newline>'',
            parts = [\<lparr>ptr = 4096, len = 5\<rparr>, \<lparr>ptr = 4102, len = 5\<rparr>, \<lparr>ptr = 0, len = 0\<rparr>]\<rparr>
   \<and> map (bytes (store_bytes 4096 ''line1\<newline>line2\<newline>'' zero_memory))
         [\<lparr>ptr = 4096, len = 5\<rparr>, \<lparr>ptr = 4102, len = 5\<rparr>, \<lparr>ptr = 0, len = 0\<rparr>]
     = [''line1'', ''line2'', []]"
  by code_simp

lemma scenario_count:
  "count (store_bytes 4096 ''abcabc'' zero_memory) (py_str_t 4096 ''abcabc'') ''abc'' 0 ssize_max_k False
     = Inr 2
   \<and> count (store_bytes 4096 ''ababa'' zero_memory) (py_str_t 4096 ''ababa'') ''aba'' 0 ssize_max_k True
     = Inr 2"
  by code_simp

section \<open>Claims\<close>

text \<open>
  C1 (failing input). The resolver clamps \<open>start\<close> and \<open>end\<close> to the length but does not
  clamp their difference: with length 5, start 3 and end 1 the returned span length is
  \<open>1 - 3\<close> as a \<^verbatim>\<open>size_t\<close>, that is \<open>2^64 - 2\<close>, not \<open>max(0, 1 - 3) = 0\<close>; the
  offset plus the span length exceeds the length, and resolving again against that span
  length is rejected.
\<close>

theorem unsigned_slice_end_before_start:
  "unsigned_slice 5 3 1 = Inr \<lparr>offset = 3, length' = 18446744073709551614\<rparr>
   \<and> \<not> (unat (3 :: 64 word) + unat (18446744073709551614 :: 64 word) \<le> unat (5 :: 64 word))
   \<and> unsigned_slice 18446744073709551614 0 18446744073709551614 = Inl Invalid_argument"
  by (simp add: unsigned_slice_def)

text \<open>
  C2 (failing input). \<^verbatim>\<open>sub\<close> with start 3 and end 1 on a view of 5 bytes returns a
  subspan that starts 3 bytes into its owner and has length \<open>2^64 - 2\<close>: the View invariant
  against the owner does not hold.
\<close>

theorem sub_end_before_start:
  "sub (Py_str \<lparr>ptr = 4096, len = 5\<rparr>) 3 1
     = Inr (Py_subspan (Py_str \<lparr>ptr = 4096, len = 5\<rparr>)
              \<lparr>ptr = 4099, len = 18446744073709551614\<rparr>)
   \<and> \<not> within \<lparr>ptr = 4099, len = 18446744073709551614\<rparr> \<lparr>ptr = 4096, len = 5\<rparr>"
  by (simp add: sub_def unsigned_slice_def size_span_def within_def)

text \<open>
  C3 (counterexample). A subspan taken from a subspan refers to that intermediate
  subspan, not to the root owner: \<^verbatim>\<open>sub\<close> passes \<^verbatim>\<open>shared_from_this()\<close>, the object
  it was called on.
\<close>

theorem sub_of_sub_parent_not_root:
  "sub (Py_str \<lparr>ptr = 4096, len = 5\<rparr>) 1 4
     = Inr (Py_subspan (Py_str \<lparr>ptr = 4096, len = 5\<rparr>) \<lparr>ptr = 4097, len = 3\<rparr>)
   \<and> sub (Py_subspan (Py_str \<lparr>ptr = 4096, len = 5\<rparr>) \<lparr>ptr = 4097, len = 3\<rparr>) 0 2
     = Inr (Py_subspan (Py_subspan (Py_str \<lparr>ptr = 4096, len = 5\<rparr>) \<lparr>ptr = 4097, len = 3\<rparr>)
              \<lparr>ptr = 4097, len = 2\<rparr>)
   \<and> parent (Py_subspan (Py_subspan (Py_str \<lparr>ptr = 4096, len = 5\<rparr>) \<lparr>ptr = 4097, len = 3\<rparr>)
              \<lparr>ptr = 4097, len = 2\<rparr>)
     \<noteq> Some (root_owner (Py_subspan (Py_str \<lparr>ptr = 4096, len = 5\<rparr>) \<lparr>ptr = 4097, len = 3\<rparr>))"
  by (simp add: sub_def unsigned_slice_def size_span_def)

text \<open>
  C3 (amended). The subspan returned by \<^verbatim>\<open>sub\<close> on a view refers to that view itself:
  to the root owner when the view is a root, to the intermediate subspan when the view is
  a subspan. The chain of references is one longer than the view's and ends at the same
  root owner.
\<close>

theorem sub_parent_is_receiver:
  "sub this start end = Inr s \<Longrightarrow>
     parent s = Some this \<and> root_owner s = root_owner this
     \<and> chain_depth s = Suc (chain_depth this)"
  by (auto simp: sub_def split: sum.splits)

theorem sub_parent_is_receiver_witness:
  "sub (Py_subspan (Py_str \<lparr>ptr = 4096, len = 5\<rparr>) \<lparr>ptr = 4097, len = 3\<rparr>) 0 2
     = Inr (Py_subspan (Py_subspan (Py_str \<lparr>ptr = 4096, len = 5\<rparr>) \<lparr>ptr = 4097, len = 3\<rparr>)
              \<lparr>ptr = 4097, len = 2\<rparr>)
   \<and> parent (Py_subspan (Py_subspan (Py_str \<lparr>ptr = 4096, len = 5\<rparr>) \<lparr>ptr = 4097, len = 3\<rparr>)
              \<lparr>ptr = 4097, len = 2\<rparr>)
     = Some (Py_subspan (Py_str \<lparr>ptr = 4096, len = 5\<rparr>) \<lparr>ptr = 4097, len = 3\<rparr>)
   \<and> root_owner (Py_subspan (Py_subspan (Py_str \<lparr>ptr = 4096, len = 5\<rparr>) \<lparr>ptr = 4097, len = 3\<rparr>)
              \<lparr>ptr = 4097, len = 2\<rparr>)
     = Py_str \<lparr>ptr = 4096, len = 5\<rparr>
   \<and> chain_depth (Py_subspan (Py_subspan (Py_str \<lparr>ptr = 4096, len = 5\<rparr>) \<lparr>ptr = 4097, len = 3\<rparr>)
              \<lparr>ptr = 4097, len = 2\<rparr>) = 2"
proof -
  have run: "sub (Py_subspan (Py_str \<lparr>ptr = 4096, len = 5\<rparr>) \<lparr>ptr = 4097, len = 3\<rparr>) 0 2
     = Inr (Py_subspan (Py_subspan (Py_str \<lparr>ptr = 4096, len = 5\<rparr>) \<lparr>ptr = 4097, len = 3\<rparr>)
              \<lparr>ptr = 4097, len = 2\<rparr>)"
    by (simp add: sub_def unsigned_slice_def size_span_def)
  show ?thesis
    using run sub_parent_is_receiver [OF run] by simp
qed

text \<open>
  C4 (failing input). On the text \<open>a,b,c\<close> with separator \<open>,\<close> there are \<open>k = 2\<close>
  separators; with \<open>maxsplit = 2 < k + 1\<close> the vector has two parts, the loop fills
  \<open>parts[0]\<close>, and the tail is then written to \<open>parts[count_separators] = parts[2]\<close>,
  past the end of the vector: no collection whose final part holds the tail is returned.
\<close>

theorem splitlines_cap_below_parts:
  "count_substr_char (store_bytes 4096 ''a,b,c'' zero_memory) (span (py_str_t 4096 ''a,b,c'')) CHR '',''
     = 2
   \<and> splitlines (store_bytes 4096 ''a,b,c'' zero_memory) (py_str_t 4096 ''a,b,c'') False CHR '','' 2
     = Inl Undefined_behaviour"
  by code_simp

text \<open>
  C5 (failing input). On a collection of one part, index 1 (its length) is accepted by
  \<^verbatim>\<open>unsigned_offset\<close>, which rejects only indices greater than the length; \<^verbatim>\<open>at\<close>
  then reads \<^verbatim>\<open>parts_[1]\<close>, one past the end of the vector, instead of failing with
  \<^verbatim>\<open>std::out_of_range\<close>.
\<close>

theorem at_length_not_out_of_range:
  "unsigned_offset 1 1 = Inr 1
   \<and> at \<lparr>whole = Py_str \<lparr>ptr = 4096, len = 3\<rparr>, parts = [\<lparr>ptr = 4096, len = 3\<rparr>]\<rparr> 1
       = Inl Undefined_behaviour
   \<and> at \<lparr>whole = Py_str \<lparr>ptr = 4096, len = 3\<rparr>, parts = [\<lparr>ptr = 4096, len = 3\<rparr>]\<rparr> 1
       \<noteq> Inl Out_of_range"
  by (simp add: at_def unsigned_offset_def size_spans_def)

text \<open>
  C6. Without a part cap (\<open>maxsplit\<close> at its default \<open>size_max_k\<close>), on a view and a
  non-empty separator whose sizes are sizes of C++ objects (below \<open>2^63\<close>), \<^verbatim>\<open>split\<close>
  and \<^verbatim>\<open>splitlines\<close> return a collection, and its parts reconstruct the bytes of the
  view: joined by the separator when the separators were removed, concatenated when they
  were kept in the parts.
\<close>

theorem split_parts_reconstruct:
  assumes "unat (len (span this)) < 2 ^ 63" and "separator \<noteq> []" and "length separator < 2 ^ 63"
  shows "(\<exists>ps. split mem this separator size_max_k keepseparator = Inr \<lparr>whole = this, parts = ps\<rparr>
            \<and> (if keepseparator then concat (map (bytes mem) ps)
                else join separator (map (bytes mem) ps)) = bytes mem (span this))
       \<and> (\<exists>ps. splitlines mem this keeplinebreaks c size_max_k = Inr \<lparr>whole = this, parts = ps\<rparr>
            \<and> (if keeplinebreaks then concat (map (bytes mem) ps)
                else join [c] (map (bytes mem) ps)) = bytes mem (span this))"
proof -
  let ?xs = "bytes mem (span this)"
  have bound: "\<And>n. n \<noteq> [] \<Longrightarrow> strzl_naive_count_substr ?xs n False + 1 < unat size_max_k"
  proof -
    fix n :: "char list"
    assume "n \<noteq> []"
    then have "strzl_naive_count_substr ?xs n False \<le> length ?xs"
      by (rule count_substr_le)
    then have "strzl_naive_count_substr ?xs n False < 2 ^ 63"
      using assms(1) by simp
    then show "strzl_naive_count_substr ?xs n False + 1 < unat size_max_k"
      by (simp add: size_max_k_def)
  qed
  have "split mem this separator size_max_k keepseparator
          = Inr \<lparr>whole = this, parts = scan_parts (ptr (span this)) separator keepseparator ?xs 0\<rparr>"
    using assms(2) assms(1) assms(3) bound [OF assms(2)] by (rule split_scan)
  moreover have "(if keepseparator
          then concat (map (bytes mem) (scan_parts (ptr (span this)) separator keepseparator ?xs 0))
          else join separator (map (bytes mem) (scan_parts (ptr (span this)) separator keepseparator ?xs 0)))
        = ?xs"
    using assms(2) concat_scan_parts [of separator mem "span this" 0]
      join_scan_parts [of separator mem "span this" 0]
    by simp
  moreover have "strzl_naive_count_substr ?xs [c] False < unat size_max_k"
    using bound [of "[c]"] by simp
  then have "splitlines mem this keeplinebreaks c size_max_k
          = Inr \<lparr>whole = this, parts = scan_parts (ptr (span this)) [c] keeplinebreaks ?xs 0\<rparr>"
    using assms(1) by (intro splitlines_scan)
  moreover have "(if keeplinebreaks
          then concat (map (bytes mem) (scan_parts (ptr (span this)) [c] keeplinebreaks ?xs 0))
          else join [c] (map (bytes mem) (scan_parts (ptr (span this)) [c] keeplinebreaks ?xs 0)))
        = ?xs"
    using concat_scan_parts [of "[c]" mem "span this" 0] join_scan_parts [of "[c]" mem "span this" 0]
    by simp
  ultimately show ?thesis
    by blast
qed

theorem split_parts_reconstruct_witness:
  "join '','' (map (bytes (store_bytes 4096 ''a,bb,,c'' zero_memory))
       [\<lparr>ptr = 4096, len = 1\<rparr>, \<lparr>ptr = 4098, len = 2\<rparr>, \<lparr>ptr = 4101, len = 0\<rparr>,
        \<lparr>ptr = 4102, len = 1\<rparr>])
     = bytes (store_bytes 4096 ''a,bb,,c'' zero_memory) (span (py_str_t 4096 ''a,bb,,c''))
   \<and> join '','' (map (bytes (store_bytes 4096 ''a,bb,,c'' zero_memory))
       [\<lparr>ptr = 4096, len = 1\<rparr>, \<lparr>ptr = 4098, len = 2\<rparr>, \<lparr>ptr = 4101, len = 0\<rparr>,
        \<lparr>ptr = 4102, len = 1\<rparr>]) = ''a,bb,,c''"
proof -
  have h1: "unat (len (span (py_str_t 4096 ''a,bb,,c''))) < 2 ^ 63"
    by (simp add: py_str_t_def)
  have h2: "'','' \<noteq> []" and h3: "length '','' < 2 ^ 63"
    by simp_all
  have run: "split (store_bytes 4096 ''a,bb,,c'' zero_memory) (py_str_t 4096 ''a,bb,,c'') '',''
               size_max_k False
             = Inr \<lparr>whole = py_str_t 4096 ''a,bb,,c'',
                    parts = [\<lparr>ptr = 4096, len = 1\<rparr>, \<lparr>ptr = 4098, len = 2\<rparr>,
                             \<lparr>ptr = 4101, len = 0\<rparr>, \<lparr>ptr = 4102, len = 1\<rparr>]\<rparr>"
    by code_simp
  have bs: "bytes (store_bytes 4096 ''a,bb,,c'' zero_memory) (span (py_str_t 4096 ''a,bb,,c''))
               = ''a,bb,,c''"
    by code_simp
  show ?thesis
    using split_parts_reconstruct [OF h1 h2 h3,
        of "store_bytes 4096 ''a,bb,,c'' zero_memory" False False "CHR '',''"]
    unfolding run bs by simp
qed


text \<open>
  C8 (counterexample). The text \<open>aaa\<close> ends exactly on an occurrence of the separator
  \<open>aa\<close>, but that occurrence overlaps the one the scan consumed at the start: \<^verbatim>\<open>split\<close>
  returns the parts \<open>""\<close> and \<open>"a"\<close>, and the final part is not empty.
\<close>

theorem split_overlapping_suffix:
  "suffix ''aa'' ''aaa''
   \<and> split (store_bytes 4096 ''aaa'' zero_memory) (py_str_t 4096 ''aaa'') ''aa'' size_max_k False
     = Inr \<lparr>whole = py_str_t 4096 ''aaa'',
            parts = [\<lparr>ptr = 4096, len = 0\<rparr>, \<lparr>ptr = 4098, len = 1\<rparr>]\<rparr>
   \<and> bytes (store_bytes 4096 ''aaa'' zero_memory) \<lparr>ptr = 4098, len = 1\<rparr> = ''a''"
  by code_simp

text \<open>
  C8 (amended). For every view and every non-empty separator (sizes below \<open>2^63\<close>), when
  the left-to-right scan for non-overlapping separators stops exactly at the end of the
  text, that is, the last separator it locates is the last bytes of the text, and the
  part cap is not reached (one more than the number of separators the scan locates is
  below \<open>maxsplit\<close>), \<^verbatim>\<open>split\<close> returns a collection whose final part is the empty
  \<^verbatim>\<open>span_t {}\<close>.
\<close>

theorem split_trailing_separator:
  assumes "separator \<noteq> []" and "unat (len (span this)) < 2 ^ 63" and "length separator < 2 ^ 63"
    and "strzl_naive_count_substr (bytes mem (span this)) separator False + 1 < unat maxsplit"
    and "scan_ends_on_separator separator (bytes mem (span this)) 0"
  shows "\<exists>ps. split mem this separator maxsplit keepseparator = Inr \<lparr>whole = this, parts = ps\<rparr>
           \<and> ps \<noteq> [] \<and> last ps = span_nil \<and> bytes mem (last ps) = []"
proof -
  let ?ps = "scan_parts (ptr (span this)) separator keepseparator (bytes mem (span this)) 0"
  have "split mem this separator maxsplit keepseparator = Inr \<lparr>whole = this, parts = ?ps\<rparr>"
    using assms(1-4) by (rule split_scan)
  moreover have "?ps \<noteq> []"
    using assms(1) by (rule scan_parts_nonempty)
  moreover have "last ?ps = span_nil"
    using assms(5) by (rule scan_ends_last_nil)
  ultimately show ?thesis
    by simp
qed

theorem split_trailing_separator_witness:
  "split (store_bytes 4096 ''a,b,'' zero_memory) (py_str_t 4096 ''a,b,'') '','' size_max_k False
     = Inr \<lparr>whole = py_str_t 4096 ''a,b,'',
            parts = [\<lparr>ptr = 4096, len = 1\<rparr>, \<lparr>ptr = 4098, len = 1\<rparr>, \<lparr>ptr = 0, len = 0\<rparr>]\<rparr>
   \<and> last [\<lparr>ptr = 4096, len = 1\<rparr>, \<lparr>ptr = 4098, len = 1\<rparr>, \<lparr>ptr = 0, len = (0 :: 64 word)\<rparr>]
     = span_nil"
proof -
  have bs: "bytes (store_bytes 4096 ''a,b,'' zero_memory) (span (py_str_t 4096 ''a,b,'')) = ''a,b,''"
    by code_simp
  have h1: "'','' \<noteq> []" and h3: "length '','' < 2 ^ 63"
    by simp_all
  have h2: "unat (len (span (py_str_t 4096 ''a,b,''))) < 2 ^ 63"
    by (simp add: py_str_t_def)
  have "strzl_naive_count_substr ''a,b,'' '','' False = 2"
    by code_simp
  then have h4: "strzl_naive_count_substr
              (bytes (store_bytes 4096 ''a,b,'' zero_memory) (span (py_str_t 4096 ''a,b,''))) '','' False + 1
            < unat size_max_k"
    unfolding bs by (simp add: size_max_k_def)
  have h5: "scan_ends_on_separator '',''
              (bytes (store_bytes 4096 ''a,b,'' zero_memory) (span (py_str_t 4096 ''a,b,''))) 0"
    unfolding bs by code_simp
  have run: "split (store_bytes 4096 ''a,b,'' zero_memory) (py_str_t 4096 ''a,b,'') '','' size_max_k False
     = Inr \<lparr>whole = py_str_t 4096 ''a,b,'',
            parts = [\<lparr>ptr = 4096, len = 1\<rparr>, \<lparr>ptr = 4098, len = 1\<rparr>, \<lparr>ptr = 0, len = 0\<rparr>]\<rparr>"
    by code_simp
  show ?thesis
    using split_trailing_separator [OF h1 h2 h3 h4 h5, of False]
    unfolding run by simp
qed

text \<open>
  C9. With an empty needle, for every view and all slice bounds, \<^verbatim>\<open>contains\<close> returns
  true, \<^verbatim>\<open>find\<close> returns 0 and \<^verbatim>\<open>count\<close> returns 0; none of them throws, also on
  negative bounds, since the needle is tested before the bounds are resolved.
\<close>

theorem empty_needle:
  "contains mem this [] start end = Inr True
   \<and> find mem this [] start end = Inr 0
   \<and> count mem this [] start end allowoverlap = Inr 0"
  by (simp add: contains_def find_def count_def)

text \<open>
  C10. For every view (of a size below \<open>2^63\<close>), every non-empty needle and all bounds
  \<open>0 \<le> start \<le> end\<close>, the resolved slice is the bytes of the view from \<open>start\<close> up to
  \<open>end\<close>; when the needle occurs in the slice, \<^verbatim>\<open>find\<close> returns the offset \<open>i\<close> of
  its first occurrence counted from the beginning of the slice (so the occurrence is
  \<open>start + i\<close> bytes into the view), and it returns \<open>-1\<close> exactly when the needle does
  not occur in the slice.
\<close>

theorem find_offset_in_slice:
  assumes "needle \<noteq> []" and "0 \<le> sint start" and "sint start \<le> sint end"
    and "unat (len (span this)) < 2 ^ 63"
  shows "\<exists>part. subspan (span this) start end = Inr part
           \<and> bytes mem part = drop (unat start) (take (unat end) (bytes mem (span this)))
           \<and> (if \<exists>i. prefix needle (drop i (bytes mem part))
              then \<exists>i. find mem this needle start end = Inr (of_nat i)
                     \<and> sint (of_nat i :: 64 word) = int i
                     \<and> prefix needle (drop i (bytes mem part))
                     \<and> (\<forall>j<i. \<not> prefix needle (drop j (bytes mem part)))
              else find mem this needle start end = Inr (- 1))"
proof -
  obtain part where part: "subspan (span this) start end = Inr part"
    and slice: "bytes mem part = drop (unat start) (take (unat end) (bytes mem (span this)))"
    using subspan_ordered [OF assms(2-4), of mem] by blast
  let ?xs = "bytes mem part"
  let ?o = "strzl_naive_find_substr ?xs needle"
  have res: "find mem this needle start end = Inr (if ?o < length ?xs then of_nat ?o else - 1)"
    using assms(1) part by (rule find_resolved)
  have "length ?xs \<le> length (bytes mem (span this))"
    unfolding slice by simp
  then have small: "length ?xs < 2 ^ 63"
    using assms(4) by simp
  have "(if \<exists>i. prefix needle (drop i ?xs)
         then \<exists>i. find mem this needle start end = Inr (of_nat i)
                \<and> sint (of_nat i :: 64 word) = int i
                \<and> prefix needle (drop i ?xs)
                \<and> (\<forall>j<i. \<not> prefix needle (drop j ?xs))
         else find mem this needle start end = Inr (- 1))"
  proof (cases "?o < length ?xs")
    case True
    then have occ: "prefix needle (drop ?o ?xs)"
      by (rule find_substr_found)
    have first: "\<forall>j<?o. \<not> prefix needle (drop j ?xs)"
      by (simp add: find_substr_first)
    have o63: "?o < 2 ^ 63"
      using True small by simp
    then have "?o < 2 ^ 64"
      by simp
    then have "unat (of_nat ?o :: 64 word) = ?o"
      by (rule unat_of_nat64)
    then have "0 \<le> sint (of_nat ?o :: 64 word)" and "uint (of_nat ?o :: 64 word) = int ?o"
      using o63 by (simp_all add: sint_nonneg_unat uint_nat)
    then have "sint (of_nat ?o :: 64 word) = int ?o"
      by (simp add: sint_nonneg_uint)
    then show ?thesis
      using True res occ first by auto
  next
    case False
    have "?o \<le> length ?xs"
      by (rule find_substr_le)
    with False have "?o = length ?xs"
      by simp
    then have "\<And>j. \<not> prefix needle (drop j ?xs)"
      using assms(1) by (rule find_substr_none [rotated])
    then show ?thesis
      using False res by simp
  qed
  with part slice show ?thesis
    by blast
qed

theorem find_offset_in_slice_witness:
  "find (store_bytes 4096 ''hello world'' zero_memory) (py_str_t 4096 ''hello world'') ''o'' 5 100
     = Inr 2
   \<and> find (store_bytes 4096 ''hello world'' zero_memory) (py_str_t 4096 ''hello world'') ''hel'' 5 100
     = Inr (- 1)
   \<and> (\<exists>part. subspan (span (py_str_t 4096 ''hello world'')) 5 100 = Inr part
        \<and> bytes (store_bytes 4096 ''hello world'' zero_memory) part = '' world'')"
proof -
  have h1: "''o'' \<noteq> []" and h2: "0 \<le> sint (5 :: 64 word)"
    and h3: "sint (5 :: 64 word) \<le> sint (100 :: 64 word)"
    by simp_all
  have h4: "unat (len (span (py_str_t 4096 ''hello world''))) < 2 ^ 63"
    by (simp add: py_str_t_def)
  have bs: "bytes (store_bytes 4096 ''hello world'' zero_memory) (span (py_str_t 4096 ''hello world''))
               = ''hello world''"
    by code_simp
  have run: "find (store_bytes 4096 ''hello world'' zero_memory) (py_str_t 4096 ''hello world'') ''o'' 5 100
               = Inr 2"
    "find (store_bytes 4096 ''hello world'' zero_memory) (py_str_t 4096 ''hello world'') ''hel'' 5 100
               = Inr (- 1)"
    by code_simp+
  show ?thesis
    using find_offset_in_slice [OF h1 h2 h3 h4, of "store_bytes 4096 ''hello world'' zero_memory"]
    unfolding bs run by auto
qed

end
